theory Spec2Isabelle
  imports Main "HOL-Library.Word" "HOL-Library.Multiset"
begin

unbundle bit_operations_syntax

section \<open>Shared types\<close>

text \<open>
  \<^verbatim>\<open>enum ContainsResult { not_found, might_exist, exists };\<close>
\<close>

datatype ContainsResult = not_found | might_exist | exists

text \<open>
  The two ways an operation of the header stops without a result: the remainder
  \<^verbatim>\<open>hash % buckets.size()\<close> of \<^verbatim>\<open>hash_index\<close> on a directory of size 0, and a failing
  \<^verbatim>\<open>assert\<close>.
\<close>

datatype error = DivisionByZero | AssertionFailed

text \<open>\<^verbatim>\<open>using Seed = std::uint64_t;\<close>\<close>

type_synonym Seed = "64 word"

text \<open>
  The injected \<^verbatim>\<open>HashFn\<close>: a stateless functor; its result is taken at the width of the
  exclusive-or with the 64-bit seed.
\<close>

type_synonym 'k HashFn = "'k word \<Rightarrow> 64 word"

section \<open>InvertibleBloomFilter\<close>

text \<open>
  \<^verbatim>\<open>struct Bucket { Key cumulative_key = 0; BucketCounter count = 0; }\<close> the counter type
  \<^verbatim>\<open>BucketCounter\<close> being a template parameter (default \<^verbatim>\<open>std::uint16_t\<close>, that is
  \<open>16 word\<close>); the class keeps \<^verbatim>\<open>seeds\<close> (an array of \<open>K\<close> seeds,
  here a list of length \<open>K\<close>), \<^verbatim>\<open>buckets\<close> and \<^verbatim>\<open>size_t count\<close>.  The bucket's counter is
  named \<open>bcount\<close>, the member \<^verbatim>\<open>count\<close> of the class keeps its name.
\<close>

record ('key, 'counter) Bucket =
  cumulative_key :: "'key"
  bcount :: "'counter"

record ('key, 'counter) InvertibleBloomFilter =
  seeds :: "Seed list"
  buckets :: "('key, 'counter) Bucket list"
  count :: "64 word"

definition hash_index :: "'k::len HashFn \<Rightarrow> ('k word, 'c::len word) InvertibleBloomFilter \<Rightarrow> 'k word \<Rightarrow> Seed \<Rightarrow> error + nat" where
  "hash_index hasher s key seed =
     (let hash = hasher key XOR seed
      in if length (buckets s) = 0 then Inl DivisionByZero
         else Inr (unat hash mod length (buckets s)))"

definition size_ibf :: "('k, 'c) InvertibleBloomFilter \<Rightarrow> 64 word" where
  "size_ibf s = count s"

definition directory_size :: "('k, 'c) InvertibleBloomFilter \<Rightarrow> nat" where
  "directory_size s = length (buckets s)"

definition listSeeds :: "('k, 'c) InvertibleBloomFilter \<Rightarrow> Seed list" where
  "listSeeds s = seeds s"

text \<open>The body of the loop of \<^verbatim>\<open>insert\<close> over the seeds, \<open>seen\<close> being \<^verbatim>\<open>seen_indices\<close>.\<close>

fun insert_loop ::
  "'k::len HashFn \<Rightarrow> 'k word \<Rightarrow> Seed list \<Rightarrow> nat set \<Rightarrow> ('k word, 'c::len word) InvertibleBloomFilter
     \<Rightarrow> error + ('k word, 'c::len word) InvertibleBloomFilter" where
  "insert_loop hasher key [] seen s = Inr s"
| "insert_loop hasher key (seed # rest) seen s =
     (case hash_index hasher s key seed of
        Inl e \<Rightarrow> Inl e
      | Inr index \<Rightarrow>
          if index \<in> seen then insert_loop hasher key rest seen s
          else
            let bucket = buckets s ! index;
                bucket' = bucket\<lparr>cumulative_key := cumulative_key bucket XOR key,
                                 bcount := bcount bucket + 1\<rparr>
            in insert_loop hasher key rest (insert index seen)
                 (s\<lparr>buckets := (buckets s)[index := bucket']\<rparr>))"

definition insert_ibf ::
  "'k::len HashFn \<Rightarrow> ('k word, 'c::len word) InvertibleBloomFilter \<Rightarrow> 'k word \<Rightarrow> error + ('k word, 'c::len word) InvertibleBloomFilter" where
  "insert_ibf hasher s key =
     (case insert_loop hasher key (seeds s) {} s of
        Inl e \<Rightarrow> Inl e
      | Inr s' \<Rightarrow> Inr (s'\<lparr>count := count s' + 1\<rparr>))"

text \<open>The loop of \<^verbatim>\<open>contains\<close>; \<open>might\<close> is the local \<^verbatim>\<open>might_exist\<close>.\<close>

fun contains_loop ::
  "'k::len HashFn \<Rightarrow> ('k word, 'c::len word) InvertibleBloomFilter \<Rightarrow> 'k word \<Rightarrow> Seed list \<Rightarrow> bool
     \<Rightarrow> error + ContainsResult" where
  "contains_loop hasher s key [] might = Inr (if might then might_exist else not_found)"
| "contains_loop hasher s key (seed # rest) might =
     (case hash_index hasher s key seed of
        Inl e \<Rightarrow> Inl e
      | Inr index \<Rightarrow>
          let bucket = buckets s ! index
          in if bcount bucket = 1
             then Inr (if key = cumulative_key bucket then exists else not_found)
             else contains_loop hasher s key rest (might \<or> bcount bucket > 1))"

definition contains_ibf ::
  "'k::len HashFn \<Rightarrow> ('k word, 'c::len word) InvertibleBloomFilter \<Rightarrow> 'k word \<Rightarrow> error + ContainsResult" where
  "contains_ibf hasher s key = contains_loop hasher s key (seeds s) False"

text \<open>The loop of \<^verbatim>\<open>remove\<close>, with its \<^verbatim>\<open>assert(bucket.count > 0)\<close>.\<close>

fun remove_loop ::
  "'k::len HashFn \<Rightarrow> 'k word \<Rightarrow> Seed list \<Rightarrow> nat set \<Rightarrow> ('k word, 'c::len word) InvertibleBloomFilter
     \<Rightarrow> error + ('k word, 'c::len word) InvertibleBloomFilter" where
  "remove_loop hasher key [] seen s = Inr s"
| "remove_loop hasher key (seed # rest) seen s =
     (case hash_index hasher s key seed of
        Inl e \<Rightarrow> Inl e
      | Inr index \<Rightarrow>
          if index \<in> seen then remove_loop hasher key rest seen s
          else
            let bucket = buckets s ! index
            in if \<not> bcount bucket > 0 then Inl AssertionFailed
               else
                 let bucket' = bucket\<lparr>cumulative_key := cumulative_key bucket XOR key,
                                      bcount := bcount bucket - 1\<rparr>
                 in remove_loop hasher key rest (insert index seen)
                      (s\<lparr>buckets := (buckets s)[index := bucket']\<rparr>))"

text \<open>\<^verbatim>\<open>remove\<close> returns its boolean together with the structure after the call.\<close>

definition remove_ibf ::
  "'k::len HashFn \<Rightarrow> ('k word, 'c::len word) InvertibleBloomFilter \<Rightarrow> 'k word
     \<Rightarrow> error + (bool \<times> ('k word, 'c::len word) InvertibleBloomFilter)" where
  "remove_ibf hasher s key =
     (case contains_ibf hasher s key of
        Inl e \<Rightarrow> Inl e
      | Inr r \<Rightarrow>
          if r \<noteq> exists then Inr (False, s)
          else
            (case remove_loop hasher key (seeds s) {} s of
               Inl e \<Rightarrow> Inl e
             | Inr s' \<Rightarrow> Inr (True, s'\<lparr>count := count s' - 1\<rparr>)))"

text \<open>
  One full scan of \<^verbatim>\<open>listAll\<close>: the \<^verbatim>\<open>for\<close> loop over the bucket indices, on the working
  copy.  The loop state is the copy, the result set \<^verbatim>\<open>res\<close> and the flags \<^verbatim>\<open>finished\<close>
  and \<^verbatim>\<open>has_changed\<close>.  \<^verbatim>\<open>bucket\<close> is a reference into the copy, so the assertion after
  \<^verbatim>\<open>copy.remove\<close> reads the bucket as the removal left it.
\<close>

type_synonym ('k, 'c) scan_state = "('k word, 'c word) InvertibleBloomFilter \<times> 'k word set \<times> bool \<times> bool"

fun scan :: "'k::len HashFn \<Rightarrow> nat list \<Rightarrow> ('k, 'c::len) scan_state \<Rightarrow> error + ('k, 'c) scan_state" where
  "scan hasher [] st = Inr st"
| "scan hasher (i # rest) (copy, res, finished, has_changed) =
     (let bucket = buckets copy ! i
      in if bcount bucket = 0 then scan hasher rest (copy, res, finished, has_changed)
         else if bcount bucket > 1 then scan hasher rest (copy, res, False, has_changed)
         else
           (case remove_ibf hasher copy (cumulative_key bucket) of
              Inl e \<Rightarrow> Inl e
            | Inr (ok, copy') \<Rightarrow>
                if bcount (buckets copy' ! i) \<noteq> 0 then Inl AssertionFailed
                else scan hasher rest (copy', insert (cumulative_key bucket) res, finished, ok)))"

text \<open>
  The \<^verbatim>\<open>while (!finished && has_changed)\<close> loop.  Nothing in the code bounds the number of
  scans, so the loop is a partial function: \<open>None\<close> is a run that never returns.
\<close>

partial_function (option) peel ::
  "'k::len HashFn \<Rightarrow> ('k, 'c::len) scan_state \<Rightarrow> (error + ('k, 'c) scan_state) option" where
  "peel hasher st =
     (if \<not> fst (snd (snd st)) \<and> snd (snd (snd st))
      then
        (let r = scan hasher [0..<length (buckets (fst st))] (fst st, fst (snd st), True, False)
         in if isl r then Some r else peel hasher (projr r))
      else Some (Inr st))"

text \<open>
  \<^verbatim>\<open>listAll\<close> is a \<^verbatim>\<open>const\<close> method: it works on \<^verbatim>\<open>auto copy = *this\<close>.  The model returns
  the caller's structure after the call next to the optional result.  (Here the copy is a
  value; the section on objects in memory places the structure and the copy in a memory
  and derives that the caller's structure is unchanged.)
\<close>

definition listAll_ibf ::
  "'k::len HashFn \<Rightarrow> ('k word, 'c::len word) InvertibleBloomFilter
     \<Rightarrow> (error + (('k word, 'c::len word) InvertibleBloomFilter \<times> 'k word set option)) option" where
  "listAll_ibf hasher s =
     (let copy = s
      in case peel hasher (copy, {}, False, True) of
           None \<Rightarrow> None
         | Some (Inl e) \<Rightarrow> Some (Inl e)
         | Some (Inr (copy', res, finished, has_changed)) \<Rightarrow>
             Some (Inr (s, if \<not> finished \<or> of_nat (card res) \<noteq> count s then None
                           else Some res)))"

text \<open>
  The constructor.  \<^verbatim>\<open>std::default_random_engine\<close> and \<^verbatim>\<open>std::uniform_int_distribution\<close>
  are library code: the values that successive calls \<^verbatim>\<open>dist(rng)\<close> return are a parameter
  \<open>dist\<close>, the \<open>n\<close>-th call returning \<open>dist n\<close>.

  \<open>redraw\<close> is the \<^verbatim>\<open>do ... while (already_exists)\<close> loop for one seed, \<open>accepted\<close> being
  \<^verbatim>\<open>seeds[0..i)\<close>; the flag \<^verbatim>\<open>already_exists\<close> is declared before the \<^verbatim>\<open>do\<close> and only ever
  or-ed into.  The loop has no bound, so it is a partial function.
\<close>

partial_function (option) redraw ::
  "(nat \<Rightarrow> Seed) \<Rightarrow> nat \<Rightarrow> Seed list \<Rightarrow> bool \<Rightarrow> (Seed \<times> nat) option" where
  "redraw dist n accepted already_exists =
     (let rand_seed = dist n;
          already_exists' = fold (\<lambda>seed_j a. a \<or> seed_j = rand_seed) accepted already_exists
      in if already_exists' then redraw dist (Suc n) accepted already_exists'
         else Some (rand_seed, Suc n))"

text \<open>The \<^verbatim>\<open>for (size_t i = 0; i < K; i++)\<close> loop, counted by the iterations that remain.\<close>

fun seed_loop :: "(nat \<Rightarrow> Seed) \<Rightarrow> nat \<Rightarrow> nat \<Rightarrow> Seed list \<Rightarrow> Seed list option" where
  "seed_loop dist 0 n sds = Some sds"
| "seed_loop dist (Suc remaining) n sds =
     (case redraw dist n sds False of
        None \<Rightarrow> None
      | Some (rand_seed, n') \<Rightarrow> seed_loop dist remaining n' (sds @ [rand_seed]))"

definition InvertibleBloomFilter_ctor ::
  "nat \<Rightarrow> nat \<Rightarrow> (nat \<Rightarrow> Seed) \<Rightarrow> ('k::len word, 'c::len word) InvertibleBloomFilter option" where
  "InvertibleBloomFilter_ctor K directory dist =
     (case seed_loop dist K 0 [] of
        None \<Rightarrow> None
      | Some sds \<Rightarrow>
          Some \<lparr>seeds = sds,
                buckets = replicate directory \<lparr>cumulative_key = 0, bcount = 0\<rparr>,
                count = 0\<rparr>)"

section \<open>InvertibleBloomDictionary\<close>

text \<open>
  The second class template of the header, with its own \<^verbatim>\<open>Bucket\<close> that also accumulates
  the values.  Its members carry the suffix \<open>_d\<close>.
\<close>

record ('key, 'value, 'counter) Bucket_d =
  cumulative_key_d :: "'key"
  cumulative_value :: "'value"
  bcount_d :: "'counter"

record ('key, 'value, 'counter) InvertibleBloomDictionary =
  seeds_d :: "Seed list"
  buckets_d :: "('key, 'value, 'counter) Bucket_d list"
  count_d :: "64 word"

definition hash_index_d ::
  "'k::len HashFn \<Rightarrow> ('k word, 'v, 'c::len word) InvertibleBloomDictionary \<Rightarrow> 'k word \<Rightarrow> Seed \<Rightarrow> error + nat" where
  "hash_index_d hasher s key seed =
     (let hash = hasher key XOR seed
      in if length (buckets_d s) = 0 then Inl DivisionByZero
         else Inr (unat hash mod length (buckets_d s)))"

definition size_ibd :: "('k, 'v, 'c) InvertibleBloomDictionary \<Rightarrow> 64 word" where
  "size_ibd s = count_d s"

definition directory_size_d :: "('k, 'v, 'c) InvertibleBloomDictionary \<Rightarrow> nat" where
  "directory_size_d s = length (buckets_d s)"

definition listSeeds_d :: "('k, 'v, 'c) InvertibleBloomDictionary \<Rightarrow> Seed list" where
  "listSeeds_d s = seeds_d s"

fun insert_loop_d ::
  "'k::len HashFn \<Rightarrow> 'k word \<Rightarrow> 'v::len word \<Rightarrow> Seed list \<Rightarrow> nat set
     \<Rightarrow> ('k word, 'v word, 'c::len word) InvertibleBloomDictionary
     \<Rightarrow> error + ('k word, 'v word, 'c::len word) InvertibleBloomDictionary" where
  "insert_loop_d hasher key val [] seen s = Inr s"
| "insert_loop_d hasher key val (seed # rest) seen s =
     (case hash_index_d hasher s key seed of
        Inl e \<Rightarrow> Inl e
      | Inr index \<Rightarrow>
          if index \<in> seen then insert_loop_d hasher key val rest seen s
          else
            let bucket = buckets_d s ! index;
                bucket' = bucket\<lparr>cumulative_key_d := cumulative_key_d bucket XOR key,
                                 cumulative_value := cumulative_value bucket XOR val,
                                 bcount_d := bcount_d bucket + 1\<rparr>
            in insert_loop_d hasher key val rest (insert index seen)
                 (s\<lparr>buckets_d := (buckets_d s)[index := bucket']\<rparr>))"

definition insert_ibd ::
  "'k::len HashFn \<Rightarrow> ('k word, 'v::len word, 'c::len word) InvertibleBloomDictionary \<Rightarrow> 'k word \<Rightarrow> 'v word
     \<Rightarrow> error + ('k word, 'v word, 'c::len word) InvertibleBloomDictionary" where
  "insert_ibd hasher s key val =
     (case insert_loop_d hasher key val (seeds_d s) {} s of
        Inl e \<Rightarrow> Inl e
      | Inr s' \<Rightarrow> Inr (s'\<lparr>count_d := count_d s' + 1\<rparr>))"

fun contains_loop_d ::
  "'k::len HashFn \<Rightarrow> ('k word, 'v, 'c::len word) InvertibleBloomDictionary \<Rightarrow> 'k word \<Rightarrow> Seed list \<Rightarrow> bool
     \<Rightarrow> error + ContainsResult" where
  "contains_loop_d hasher s key [] might = Inr (if might then might_exist else not_found)"
| "contains_loop_d hasher s key (seed # rest) might =
     (case hash_index_d hasher s key seed of
        Inl e \<Rightarrow> Inl e
      | Inr index \<Rightarrow>
          let bucket = buckets_d s ! index
          in if bcount_d bucket = 1
             then Inr (if key = cumulative_key_d bucket then exists else not_found)
             else contains_loop_d hasher s key rest (might \<or> bcount_d bucket > 1))"

definition contains_ibd ::
  "'k::len HashFn \<Rightarrow> ('k word, 'v, 'c::len word) InvertibleBloomDictionary \<Rightarrow> 'k word \<Rightarrow> error + ContainsResult" where
  "contains_ibd hasher s key = contains_loop_d hasher s key (seeds_d s) False"

text \<open>\<^verbatim>\<open>get\<close>: the traversal of \<^verbatim>\<open>contains\<close>, returning the value of the first singleton probe.\<close>

fun get_loop ::
  "'k::len HashFn \<Rightarrow> ('k word, 'v, 'c::len word) InvertibleBloomDictionary \<Rightarrow> 'k word \<Rightarrow> Seed list
     \<Rightarrow> error + 'v option" where
  "get_loop hasher s key [] = Inr None"
| "get_loop hasher s key (seed # rest) =
     (case hash_index_d hasher s key seed of
        Inl e \<Rightarrow> Inl e
      | Inr index \<Rightarrow>
          let bucket = buckets_d s ! index
          in if bcount_d bucket = 1
             then Inr (if key = cumulative_key_d bucket then Some (cumulative_value bucket)
                       else None)
             else get_loop hasher s key rest)"

definition get_ibd ::
  "'k::len HashFn \<Rightarrow> ('k word, 'v, 'c::len word) InvertibleBloomDictionary \<Rightarrow> 'k word \<Rightarrow> error + 'v option" where
  "get_ibd hasher s key = get_loop hasher s key (seeds_d s)"

fun remove_loop_d ::
  "'k::len HashFn \<Rightarrow> 'k word \<Rightarrow> 'v::len word \<Rightarrow> Seed list \<Rightarrow> nat set
     \<Rightarrow> ('k word, 'v word, 'c::len word) InvertibleBloomDictionary
     \<Rightarrow> error + ('k word, 'v word, 'c::len word) InvertibleBloomDictionary" where
  "remove_loop_d hasher key val [] seen s = Inr s"
| "remove_loop_d hasher key val (seed # rest) seen s =
     (case hash_index_d hasher s key seed of
        Inl e \<Rightarrow> Inl e
      | Inr index \<Rightarrow>
          if index \<in> seen then remove_loop_d hasher key val rest seen s
          else
            let bucket = buckets_d s ! index
            in if \<not> bcount_d bucket > 0 then Inl AssertionFailed
               else
                 let bucket' = bucket\<lparr>cumulative_key_d := cumulative_key_d bucket XOR key,
                                      cumulative_value := cumulative_value bucket XOR val,
                                      bcount_d := bcount_d bucket - 1\<rparr>
                 in remove_loop_d hasher key val rest (insert index seen)
                      (s\<lparr>buckets_d := (buckets_d s)[index := bucket']\<rparr>))"

definition remove_ibd ::
  "'k::len HashFn \<Rightarrow> ('k word, 'v::len word, 'c::len word) InvertibleBloomDictionary \<Rightarrow> 'k word
     \<Rightarrow> error + (bool \<times> ('k word, 'v word, 'c::len word) InvertibleBloomDictionary)" where
  "remove_ibd hasher s key =
     (case get_ibd hasher s key of
        Inl e \<Rightarrow> Inl e
      | Inr None \<Rightarrow> Inr (False, s)
      | Inr (Some val) \<Rightarrow>
          (case remove_loop_d hasher key val (seeds_d s) {} s of
             Inl e \<Rightarrow> Inl e
           | Inr s' \<Rightarrow> Inr (True, s'\<lparr>count_d := count_d s' - 1\<rparr>)))"

type_synonym ('k, 'v, 'c) scan_state_d =
  "('k word, 'v word, 'c word) InvertibleBloomDictionary \<times> ('k word \<times> 'v word) list \<times> bool \<times> bool"

fun scan_d ::
  "'k::len HashFn \<Rightarrow> nat list \<Rightarrow> ('k, 'v::len, 'c::len) scan_state_d \<Rightarrow> error + ('k, 'v, 'c) scan_state_d" where
  "scan_d hasher [] st = Inr st"
| "scan_d hasher (i # rest) (copy, res, finished, has_changed) =
     (let bucket = buckets_d copy ! i
      in if bcount_d bucket = 0 then scan_d hasher rest (copy, res, finished, has_changed)
         else if bcount_d bucket > 1 then scan_d hasher rest (copy, res, False, has_changed)
         else
           (case remove_ibd hasher copy (cumulative_key_d bucket) of
              Inl e \<Rightarrow> Inl e
            | Inr (ok, copy') \<Rightarrow>
                if bcount_d (buckets_d copy' ! i) \<noteq> 0 then Inl AssertionFailed
                else scan_d hasher rest
                       (copy', res @ [(cumulative_key_d bucket, cumulative_value bucket)],
                        finished, ok)))"

partial_function (option) peel_d ::
  "'k::len HashFn \<Rightarrow> ('k, 'v::len, 'c::len) scan_state_d \<Rightarrow> (error + ('k, 'v, 'c) scan_state_d) option" where
  "peel_d hasher st =
     (if \<not> fst (snd (snd st)) \<and> snd (snd (snd st))
      then
        (let r = scan_d hasher [0..<length (buckets_d (fst st))]
                   (fst st, fst (snd st), True, False)
         in if isl r then Some r else peel_d hasher (projr r))
      else Some (Inr st))"

definition listAll_ibd ::
  "'k::len HashFn \<Rightarrow> ('k word, 'v::len word, 'c::len word) InvertibleBloomDictionary
     \<Rightarrow> (error + (('k word, 'v word, 'c::len word) InvertibleBloomDictionary
                   \<times> ('k word \<times> 'v word) list option)) option" where
  "listAll_ibd hasher s =
     (let copy = s
      in case peel_d hasher (copy, [], False, True) of
           None \<Rightarrow> None
         | Some (Inl e) \<Rightarrow> Some (Inl e)
         | Some (Inr (copy', res, finished, has_changed)) \<Rightarrow>
             Some (Inr (s, if \<not> finished \<or> of_nat (length res) \<noteq> count_d s then None
                           else Some res)))"

definition InvertibleBloomDictionary_ctor ::
  "nat \<Rightarrow> nat \<Rightarrow> (nat \<Rightarrow> Seed) \<Rightarrow> ('k::len word, 'v::len word, 'c::len word) InvertibleBloomDictionary option" where
  "InvertibleBloomDictionary_ctor K directory dist =
     (case seed_loop dist K 0 [] of
        None \<Rightarrow> None
      | Some sds \<Rightarrow>
          Some \<lparr>seeds_d = sds,
                buckets_d = replicate directory
                  \<lparr>cumulative_key_d = 0, cumulative_value = 0, bcount_d = 0\<rparr>,
                count_d = 0\<rparr>)"

text \<open>The hash functor of the repository's tests, at \<^verbatim>\<open>T = std::uint64_t\<close>.\<close>

definition Murmur3Finalizer :: "64 word \<Rightarrow> 64 word" where
  "Murmur3Finalizer key =
     (let key1 = key XOR drop_bit 33 key;
          key2 = key1 * 0xff51afd7ed558ccd;
          key3 = key2 XOR drop_bit 33 key2;
          key4 = key3 * 0xc4ceb9fe1a85ec53;
          key5 = key4 XOR drop_bit 33 key4
      in key5)"

section \<open>Notions used in the statements and proofs\<close>

text \<open>
  The slot that \<^verbatim>\<open>hash_index\<close> computes on a directory of \<open>n > 0\<close> buckets, and the set of
  slots that the seeds give a key (its probes).
\<close>

definition slot :: "'k::len HashFn \<Rightarrow> nat \<Rightarrow> 'k word \<Rightarrow> Seed \<Rightarrow> nat" where
  "slot hasher n key seed = unat (hasher key XOR seed) mod n"

definition probes :: "'k::len HashFn \<Rightarrow> nat \<Rightarrow> Seed list \<Rightarrow> 'k word \<Rightarrow> nat set" where
  "probes hasher n sds key = slot hasher n key ` set sds"

text \<open>Applying a function to the elements of a list at a set of positions.\<close>

definition apply_at :: "nat set \<Rightarrow> ('b \<Rightarrow> 'b) \<Rightarrow> 'b list \<Rightarrow> 'b list" where
  "apply_at A f xs = map (\<lambda>i. if i \<in> A then f (xs ! i) else xs ! i) [0..<length xs]"

text \<open>What \<^verbatim>\<open>insert\<close> and \<^verbatim>\<open>remove\<close> do to one bucket.\<close>

definition add_key ::
  "'k::len word \<Rightarrow> ('k word, 'c::len word) Bucket \<Rightarrow> ('k word, 'c word) Bucket" where
  "add_key key b = b\<lparr>cumulative_key := cumulative_key b XOR key, bcount := bcount b + 1\<rparr>"

definition sub_key ::
  "'k::len word \<Rightarrow> ('k word, 'c::len word) Bucket \<Rightarrow> ('k word, 'c word) Bucket" where
  "sub_key key b = b\<lparr>cumulative_key := cumulative_key b XOR key, bcount := bcount b - 1\<rparr>"

definition add_kv ::
  "'k::len word \<Rightarrow> 'v::len word \<Rightarrow> ('k word, 'v word, 'c::len word) Bucket_d
     \<Rightarrow> ('k word, 'v word, 'c word) Bucket_d" where
  "add_kv key val b =
     b\<lparr>cumulative_key_d := cumulative_key_d b XOR key,
       cumulative_value := cumulative_value b XOR val,
       bcount_d := bcount_d b + 1\<rparr>"

definition sub_kv ::
  "'k::len word \<Rightarrow> 'v::len word \<Rightarrow> ('k word, 'v word, 'c::len word) Bucket_d
     \<Rightarrow> ('k word, 'v word, 'c word) Bucket_d" where
  "sub_kv key val b =
     b\<lparr>cumulative_key_d := cumulative_key_d b XOR key,
       cumulative_value := cumulative_value b XOR val,
       bcount_d := bcount_d b - 1\<rparr>"

text \<open>
  A freshly constructed structure: every bucket value-initialised, the logical count 0.
  The seeds are whatever the constructor produced.
\<close>

definition fresh :: "nat \<Rightarrow> ('k::len word, 'c::len word) InvertibleBloomFilter \<Rightarrow> bool" where
  "fresh n s \<longleftrightarrow>
     buckets s = replicate n \<lparr>cumulative_key = 0, bcount = 0\<rparr> \<and> count s = 0"

definition fresh_d ::
  "nat \<Rightarrow> ('k::len word, 'v::len word, 'c::len word) InvertibleBloomDictionary \<Rightarrow> bool" where
  "fresh_d n s \<longleftrightarrow>
     buckets_d s = replicate n \<lparr>cumulative_key_d = 0, cumulative_value = 0, bcount_d = 0\<rparr>
     \<and> count_d s = 0"

text \<open>
  Concrete structures for the worked examples: the configuration of the repository's tests
  (64-bit keys, 32-bit values, 16-bit counters, \<open>K = 3\<close>, ten buckets,
  \<^verbatim>\<open>Murmur3Finalizer\<close>) with the seeds 0, 1, 2, fresh and after \<^verbatim>\<open>insert(1337)\<close>,
  whose probes are the buckets 4, 5 and 6.
\<close>

definition example_fresh :: "(64 word, 16 word) InvertibleBloomFilter" where
  "example_fresh =
     \<lparr>seeds = [0, 1, 2], buckets = replicate 10 \<lparr>cumulative_key = 0, bcount = 0\<rparr>, count = 0\<rparr>"

definition example_one :: "(64 word, 16 word) InvertibleBloomFilter" where
  "example_one =
     \<lparr>seeds = [0, 1, 2],
      buckets = (replicate 10 \<lparr>cumulative_key = 0, bcount = 0\<rparr>)
                  [4 := \<lparr>cumulative_key = 1337, bcount = 1\<rparr>,
                   5 := \<lparr>cumulative_key = 1337, bcount = 1\<rparr>,
                   6 := \<lparr>cumulative_key = 1337, bcount = 1\<rparr>],
      count = 1\<rparr>"

definition example_fresh_d :: "(64 word, 32 word, 16 word) InvertibleBloomDictionary" where
  "example_fresh_d =
     \<lparr>seeds_d = [0, 1, 2],
      buckets_d = replicate 10 \<lparr>cumulative_key_d = 0, cumulative_value = 0, bcount_d = 0\<rparr>,
      count_d = 0\<rparr>"

definition example_one_d :: "(64 word, 32 word, 16 word) InvertibleBloomDictionary" where
  "example_one_d =
     \<lparr>seeds_d = [0, 1, 2],
      buckets_d = (replicate 10 \<lparr>cumulative_key_d = 0, cumulative_value = 0, bcount_d = 0\<rparr>)
                  [4 := \<lparr>cumulative_key_d = 1337, cumulative_value = 42, bcount_d = 1\<rparr>,
                   5 := \<lparr>cumulative_key_d = 1337, cumulative_value = 42, bcount_d = 1\<rparr>,
                   6 := \<lparr>cumulative_key_d = 1337, cumulative_value = 42, bcount_d = 1\<rparr>],
      count_d = 1\<rparr>"

text \<open>
  The same structures after a second insertion, \<^verbatim>\<open>insert(86)\<close> and \<^verbatim>\<open>insert(86, 89)\<close>: the
  probes of 86 are the buckets 7, 6 and 5, so the buckets 5 and 6 hold both keys.
\<close>

definition example_two :: "(64 word, 16 word) InvertibleBloomFilter" where
  "example_two =
     \<lparr>seeds = [0, 1, 2],
      buckets = (replicate 10 \<lparr>cumulative_key = 0, bcount = 0\<rparr>)
                  [4 := \<lparr>cumulative_key = 1337, bcount = 1\<rparr>,
                   5 := \<lparr>cumulative_key = 1391, bcount = 2\<rparr>,
                   6 := \<lparr>cumulative_key = 1391, bcount = 2\<rparr>,
                   7 := \<lparr>cumulative_key = 86, bcount = 1\<rparr>],
      count = 2\<rparr>"

definition example_two_d :: "(64 word, 32 word, 16 word) InvertibleBloomDictionary" where
  "example_two_d =
     \<lparr>seeds_d = [0, 1, 2],
      buckets_d = (replicate 10 \<lparr>cumulative_key_d = 0, cumulative_value = 0, bcount_d = 0\<rparr>)
                  [4 := \<lparr>cumulative_key_d = 1337, cumulative_value = 42, bcount_d = 1\<rparr>,
                   5 := \<lparr>cumulative_key_d = 1391, cumulative_value = 115, bcount_d = 2\<rparr>,
                   6 := \<lparr>cumulative_key_d = 1391, cumulative_value = 115, bcount_d = 2\<rparr>,
                   7 := \<lparr>cumulative_key_d = 86, cumulative_value = 89, bcount_d = 1\<rparr>],
      count_d = 2\<rparr>"

text \<open>The total of the bucket counters of a structure: the measure of the decode loop.\<close>

definition occupancy :: "('k::len word, 'c::len word) InvertibleBloomFilter \<Rightarrow> nat" where
  "occupancy s = sum_list (map (\<lambda>b. unat (bcount b)) (buckets s))"

definition occupancy_d ::
  "('k::len word, 'v::len word, 'c::len word) InvertibleBloomDictionary \<Rightarrow> nat" where
  "occupancy_d s = sum_list (map (\<lambda>b. unat (bcount_d b)) (buckets_d s))"

text \<open>The example structure after \<^verbatim>\<open>insert(1)\<close>, \<^verbatim>\<open>insert(1337)\<close> and \<^verbatim>\<open>insert(86)\<close>.\<close>

definition example_three :: "(64 word, 16 word) InvertibleBloomFilter" where
  "example_three =
     \<lparr>seeds = [0, 1, 2],
      buckets = (replicate 10 \<lparr>cumulative_key = 0, bcount = 0\<rparr>)
                  [4 := \<lparr>cumulative_key = 1336, bcount = 2\<rparr>,
                   5 := \<lparr>cumulative_key = 1390, bcount = 3\<rparr>,
                   6 := \<lparr>cumulative_key = 1390, bcount = 3\<rparr>,
                   7 := \<lparr>cumulative_key = 86, bcount = 1\<rparr>],
      count = 3\<rparr>"

text \<open>
  A structure whose logical count does not match its buckets: ten buckets, the seeds 0, 1
  and 2, the identity as hash function (the probes of the key 4 are the buckets 4, 5, 6),
  the key 4 alone in the buckets 4, 5 and 6, two keys in the bucket 9, and the count 0.
  \<open>example_stale_after\<close> is the working copy after one scan of \<^verbatim>\<open>listAll\<close>.
\<close>

definition identity_hash :: "64 word \<Rightarrow> 64 word" where
  "identity_hash key = key"

definition example_stale :: "(64 word, 16 word) InvertibleBloomFilter" where
  "example_stale =
     \<lparr>seeds = [0, 1, 2],
      buckets = (replicate 10 \<lparr>cumulative_key = 0, bcount = 0\<rparr>)
                  [4 := \<lparr>cumulative_key = 4, bcount = 1\<rparr>,
                   5 := \<lparr>cumulative_key = 4, bcount = 1\<rparr>,
                   6 := \<lparr>cumulative_key = 4, bcount = 1\<rparr>,
                   9 := \<lparr>cumulative_key = 77, bcount = 2\<rparr>],
      count = 0\<rparr>"

definition example_stale_after :: "(64 word, 16 word) InvertibleBloomFilter" where
  "example_stale_after =
     \<lparr>seeds = [0, 1, 2],
      buckets = (replicate 10 \<lparr>cumulative_key = 0, bcount = 0\<rparr>)
                  [9 := \<lparr>cumulative_key = 77, bcount = 2\<rparr>],
      count = 18446744073709551615\<rparr>"

text \<open>
  The abstract content of a structure: the keys currently inserted, as a list (a key
  inserted twice occurs twice).  \<open>routed\<close> selects the keys that have bucket \<open>i\<close> among
  their probes; a structure is \<open>consistent\<close> with a key list when every bucket holds the
  exclusive-or and the number of the keys routed to it and the logical count is their
  total number.
\<close>

definition xor_list :: "'a::len word list \<Rightarrow> 'a word" where
  "xor_list ks = foldr (XOR) ks 0"

definition routed :: "'k::len HashFn \<Rightarrow> nat \<Rightarrow> Seed list \<Rightarrow> nat \<Rightarrow> 'k word list \<Rightarrow> 'k word list" where
  "routed hasher n sds i ks = filter (\<lambda>k. i \<in> probes hasher n sds k) ks"

definition consistent ::
  "'k::len HashFn \<Rightarrow> ('k word, 'c::len word) InvertibleBloomFilter \<Rightarrow> 'k word list \<Rightarrow> bool" where
  "consistent hasher s ks \<longleftrightarrow>
     buckets s \<noteq> [] \<and> count s = of_nat (length ks) \<and>
     (\<forall>i < length (buckets s).
        buckets s ! i =
          \<lparr>cumulative_key = xor_list (routed hasher (length (buckets s)) (seeds s) i ks),
           bcount = of_nat (length (routed hasher (length (buckets s)) (seeds s) i ks))\<rparr>)"

text \<open>
  No bucket counter has wrapped around: the number of keys routed to each bucket is
  below \<open>2 ^ bits\<close> (at most 65535 for the default counter).  Nothing is said about the
  total number of keys.
\<close>

definition within_capacity ::
  "'k::len HashFn \<Rightarrow> ('k word, 'c::len word) InvertibleBloomFilter \<Rightarrow> 'k word list \<Rightarrow> bool" where
  "within_capacity hasher s ks \<longleftrightarrow>
     (\<forall>i < length (buckets s).
        length (routed hasher (length (buckets s)) (seeds s) i ks) < 2 ^ LENGTH('c))"

text \<open>
  The structures reachable from a fresh, non-empty directory by \<^verbatim>\<open>insert\<close> and successful
  \<^verbatim>\<open>remove\<close>, together with the keys inserted and not yet removed.  An insertion is
  admitted when it overflows no bucket counter: none of the probe buckets of the key holds
  the largest value of \<^verbatim>\<open>BucketCounter\<close> (\<open>- 1\<close> as a word, 65535 for the default counter).
  The number of keys is not bounded.
\<close>

inductive reachable ::
  "'k::len HashFn \<Rightarrow> ('k word, 'c::len word) InvertibleBloomFilter \<Rightarrow> 'k word list \<Rightarrow> bool"
  for hasher :: "'k HashFn" where
  reachable_fresh: "0 < n \<Longrightarrow> fresh n s \<Longrightarrow> reachable hasher s []"
| reachable_insert:
    "reachable hasher s ks \<Longrightarrow>
     \<forall>i \<in> probes hasher (length (buckets s)) (seeds s) key. bcount (buckets s ! i) \<noteq> - 1 \<Longrightarrow>
     insert_ibf hasher s key = Inr s' \<Longrightarrow>
     reachable hasher s' (key # ks)"
| reachable_remove:
    "reachable hasher s ks \<Longrightarrow> remove_ibf hasher s key = Inr (True, s') \<Longrightarrow>
     reachable hasher s' (remove1 key ks)"


text \<open>The invariant of the decode loop, relative to the keys \<open>ks0\<close> of the decoded structure.\<close>

definition decoding ::
  "'k::len HashFn \<Rightarrow> 'k word list \<Rightarrow> ('k, 'c::len) scan_state \<Rightarrow> bool" where
  "decoding hasher ks0 st \<longleftrightarrow>
     (case st of (copy, res, finished, has_changed) \<Rightarrow>
        \<exists>ks. consistent hasher copy ks \<and> within_capacity hasher copy ks \<and> finite res
           \<and> res \<union> set ks = set ks0 \<and> card res + length ks \<le> length ks0)"



text \<open>
  Inserting a list of keys one after the other, as the tests do in their loops, and a
  structure with a directory of a single bucket.
\<close>

fun insert_all ::
  "'k::len HashFn \<Rightarrow> ('k word, 'c::len word) InvertibleBloomFilter \<Rightarrow> 'k word list
     \<Rightarrow> error + ('k word, 'c word) InvertibleBloomFilter" where
  "insert_all hasher s [] = Inr s"
| "insert_all hasher s (key # keys) =
     (case insert_ibf hasher s key of Inl e \<Rightarrow> Inl e | Inr s' \<Rightarrow> insert_all hasher s' keys)"

definition example_single :: "(64 word, 16 word) InvertibleBloomFilter" where
  "example_single = \<lparr>seeds = [0, 1, 2], buckets = [\<lparr>cumulative_key = 0, bcount = 0\<rparr>], count = 0\<rparr>"

text \<open>
  A structure that holds more keys than a bucket counter can count: 8-bit counters, one
  seed, the identity as hash function and 300 buckets, into which the keys 0, ..., 299
  are inserted, each into the bucket of its own number.
\<close>

definition spread_fresh :: "(64 word, 8 word) InvertibleBloomFilter" where
  "spread_fresh =
     \<lparr>seeds = [0], buckets = replicate 300 \<lparr>cumulative_key = 0, bcount = 0\<rparr>, count = 0\<rparr>"

definition spread_keys :: "64 word list" where
  "spread_keys = map of_nat [0..<300]"

text \<open>
  The same notions for the dictionary, whose content is a list of key/value pairs.
  A successful \<^verbatim>\<open>remove(key)\<close> takes away the pair of the key with the value that \<^verbatim>\<open>get(key)\<close>
  returned.
\<close>

definition routed_d ::
  "'k::len HashFn \<Rightarrow> nat \<Rightarrow> Seed list \<Rightarrow> nat \<Rightarrow> ('k word \<times> 'v) list \<Rightarrow> ('k word \<times> 'v) list" where
  "routed_d hasher n sds i kvs = filter (\<lambda>kv. i \<in> probes hasher n sds (fst kv)) kvs"

definition within_capacity_d ::
  "'k::len HashFn \<Rightarrow> ('k word, 'v::len word, 'c::len word) InvertibleBloomDictionary
     \<Rightarrow> ('k word \<times> 'v word) list \<Rightarrow> bool" where
  "within_capacity_d hasher s kvs \<longleftrightarrow>
     (\<forall>i < length (buckets_d s).
        length (routed_d hasher (length (buckets_d s)) (seeds_d s) i kvs) < 2 ^ LENGTH('c))"

definition consistent_d ::
  "'k::len HashFn \<Rightarrow> ('k word, 'v::len word, 'c::len word) InvertibleBloomDictionary
     \<Rightarrow> ('k word \<times> 'v word) list \<Rightarrow> bool" where
  "consistent_d hasher s kvs \<longleftrightarrow>
     buckets_d s \<noteq> [] \<and> count_d s = of_nat (length kvs) \<and>
     (\<forall>i < length (buckets_d s).
        buckets_d s ! i =
          \<lparr>cumulative_key_d =
             xor_list (map fst (routed_d hasher (length (buckets_d s)) (seeds_d s) i kvs)),
           cumulative_value =
             xor_list (map snd (routed_d hasher (length (buckets_d s)) (seeds_d s) i kvs)),
           bcount_d = of_nat (length (routed_d hasher (length (buckets_d s)) (seeds_d s) i kvs))\<rparr>)"

inductive reachable_d ::
  "'k::len HashFn \<Rightarrow> ('k word, 'v::len word, 'c::len word) InvertibleBloomDictionary
     \<Rightarrow> ('k word \<times> 'v word) list \<Rightarrow> bool"
  for hasher :: "'k HashFn" where
  reachable_d_fresh: "0 < n \<Longrightarrow> fresh_d n s \<Longrightarrow> reachable_d hasher s []"
| reachable_d_insert:
    "reachable_d hasher s kvs \<Longrightarrow>
     \<forall>i \<in> probes hasher (length (buckets_d s)) (seeds_d s) key. bcount_d (buckets_d s ! i) \<noteq> - 1 \<Longrightarrow>
     insert_ibd hasher s key val = Inr s' \<Longrightarrow>
     reachable_d hasher s' ((key, val) # kvs)"
| reachable_d_remove:
    "reachable_d hasher s kvs \<Longrightarrow> get_ibd hasher s key = Inr (Some val) \<Longrightarrow>
     remove_ibd hasher s key = Inr (True, s') \<Longrightarrow>
     reachable_d hasher s' (remove1 (key, val) kvs)"

definition decoding_d ::
  "'k::len HashFn \<Rightarrow> ('k word \<times> 'v word) list \<Rightarrow> ('k, 'v::len, 'c::len) scan_state_d \<Rightarrow> bool" where
  "decoding_d hasher kvs0 st \<longleftrightarrow>
     (case st of (copy, res, finished, has_changed) \<Rightarrow>
        \<exists>kvs. consistent_d hasher copy kvs \<and> within_capacity_d hasher copy kvs
           \<and> mset res + mset kvs = mset kvs0)"


text \<open>
  A scenario with 8-bit bucket counters (\<^verbatim>\<open>BucketCounter = std::uint8_t\<close>, \<open>K = 3\<close>) and a
  directory of \<open>1023 = 2 ^ 10 - 1\<close> buckets.  A hash value is made of three 10-bit fields
  \<open>lo\<close>, \<open>a\<close>, \<open>b\<close> at the bit positions 0, 10 and 20; since \<open>2 ^ 10 mod 1023 = 1\<close> its
  remainder modulo 1023 is that of \<open>lo + a + b\<close>.  The seeds are 0, \<open>1023 * 2 ^ 10\<close> and
  \<open>1023 * 2 ^ 20\<close>: the exclusive-or with the second one replaces \<open>a\<close> by \<open>1023 - a\<close>, with
  the third one \<open>b\<close> by \<open>1023 - b\<close>.  \<open>chain_dist\<close> is the stream of values of \<^verbatim>\<open>dist(rng)\<close>
  that yields these seeds, \<open>chain_hasher\<close> the hash function (\<^verbatim>\<open>HashFn\<close>), which sends

    \<^item> the keys \<open>t = 1, ..., 255\<close> to the buckets \<open>2t + 2\<close>, \<open>2t\<close> and 0,
    \<^item> the key 256 to the buckets 512 and 0, the key 65536 to the buckets 2 and 0,
    \<^item> the keys \<open>256 + j\<close>, \<open>j = 1, ..., 255\<close>, to the buckets \<open>2j + 2\<close> and \<open>2j\<close>,
    \<^item> the key 65792 to the buckets 2 and 0, and the key 0 to the bucket 512.

  \<open>chain_keys\<close> are the 257 keys that get inserted: 1, ..., 256 and 65536.
\<close>

definition chain_code :: "nat \<Rightarrow> nat \<Rightarrow> nat \<Rightarrow> nat" where
  "chain_code lo a b = lo + a * 1024 + b * 1048576"

definition chain_field :: "nat \<Rightarrow> nat \<Rightarrow> nat \<Rightarrow> 64 word" where
  "chain_field lo a b = of_nat (chain_code lo a b)"

definition chain_hasher :: "64 word \<Rightarrow> 64 word" where
  "chain_hasher key =
     (let k = unat key
      in if k = 0 then chain_field 512 0 0
         else if k < 256 then chain_field k 1 (k + 1)
         else if k = 256 then chain_field 256 0 256
         else if k < 512 then chain_field (2 * (k - 256) + 1) 1 0
         else if k = 65536 then chain_field 0 1 1
         else if k = 65792 then chain_field 1 1 0
         else 0)"

definition chain_seeds :: "Seed list" where
  "chain_seeds = [0, 1047552, 1072693248]"

definition chain_dist :: "nat \<Rightarrow> Seed" where
  "chain_dist n = (if n = 0 then 0 else if n = 1 then 1047552 else 1072693248)"

definition chain_fresh :: "(64 word, 8 word) InvertibleBloomFilter" where
  "chain_fresh =
     \<lparr>seeds = chain_seeds, buckets = replicate 1023 \<lparr>cumulative_key = 0, bcount = 0\<rparr>, count = 0\<rparr>"

definition chain_keys :: "64 word list" where
  "chain_keys = map of_nat [1..<257] @ [65536]"

text \<open>
  The structure while \<^verbatim>\<open>listAll\<close> decodes it: \<open>chain_state j\<close> is the working copy when the
  scan reaches the bucket \<open>2j\<close>.  The buckets below \<open>2j\<close> are empty, the bucket \<open>2j\<close>
  holds the single key \<open>chain_wrong j\<close>, and each later bucket \<open>2m\<close>, \<open>m \<le> 256\<close>, still
  holds the two inserted keys routed to it, whose exclusive-or is \<open>chain_cum m\<close>.
  \<open>chain_state 0\<close> is the structure after the insertions, and \<open>chain_listed\<close> the set of
  the keys \<open>chain_wrong j\<close>, \<open>j = 0, ..., 256\<close>.
\<close>

definition chain_wrong :: "nat \<Rightarrow> 64 word" where
  "chain_wrong j = (if j = 0 then 65792 else if j = 256 then 0 else of_nat (256 + j))"

definition chain_cum :: "nat \<Rightarrow> 64 word" where
  "chain_cum m = (if m = 1 then 65537 else of_nat (m - 1) XOR of_nat m)"

definition chain_bucket :: "nat \<Rightarrow> nat \<Rightarrow> (64 word, 8 word) Bucket" where
  "chain_bucket j i =
     (if odd i \<or> 512 < i \<or> i div 2 < j then \<lparr>cumulative_key = 0, bcount = 0\<rparr>
      else if i div 2 = j then \<lparr>cumulative_key = chain_wrong j, bcount = 1\<rparr>
      else \<lparr>cumulative_key = chain_cum (i div 2), bcount = 2\<rparr>)"

definition chain_state :: "nat \<Rightarrow> (64 word, 8 word) InvertibleBloomFilter" where
  "chain_state j =
     \<lparr>seeds = chain_seeds, buckets = map (chain_bucket j) [0..<1023], count = of_nat (257 - j)\<rparr>"

definition chain_listed :: "64 word set" where
  "chain_listed = insert 65792 (insert 0 (of_nat ` {257..<512}))"

text \<open>
  A scenario for the logical count: a filter without seeds (\<open>K = 0\<close>), into which every
  64-bit key is inserted once.
\<close>

definition seedless :: "(64 word, 16 word) InvertibleBloomFilter" where
  "seedless = \<lparr>seeds = [], buckets = replicate 10 \<lparr>cumulative_key = 0, bcount = 0\<rparr>, count = 0\<rparr>"

definition every_key :: "64 word list" where
  "every_key = map of_nat [0..<2 ^ 64]"

section \<open>Objects in memory\<close>

text \<open>
  \<^verbatim>\<open>listAll\<close> is a \<^verbatim>\<open>const\<close> member function that works on \<^verbatim>\<open>auto copy = *this;\<close> and calls
  \<^verbatim>\<open>copy.remove(...)\<close>.  Whether the caller's structure survives depends on what the copy
  shares with it, so for this the objects are placed in a memory.  An object holds its
  members; the member \<^verbatim>\<open>buckets\<close>, a \<^verbatim>\<open>std::vector\<close>, is the address of the block that holds
  its elements.  The memory maps addresses to objects and to blocks; the addresses from
  \<open>next_free\<close> on are unused.
\<close>

type_synonym addr = nat

record Object =
  o_seeds :: "Seed list"
  o_buckets :: addr
  o_count :: "64 word"

record 'b Memory =
  objects :: "addr \<Rightarrow> Object"
  blocks :: "addr \<Rightarrow> 'b list"
  next_free :: addr

text \<open>The value of the object at an address, and a member function's writes to it.\<close>

definition load ::
  "('k, 'c) Bucket Memory \<Rightarrow> addr \<Rightarrow> ('k, 'c) InvertibleBloomFilter" where
  "load m p =
     \<lparr>seeds = o_seeds (objects m p), buckets = blocks m (o_buckets (objects m p)),
      count = o_count (objects m p)\<rparr>"

definition store_to ::
  "('k, 'c) Bucket Memory \<Rightarrow> addr \<Rightarrow> ('k, 'c) InvertibleBloomFilter \<Rightarrow> ('k, 'c) Bucket Memory" where
  "store_to m p s =
     m\<lparr>objects := (objects m)(p := (objects m p)\<lparr>o_seeds := seeds s, o_count := count s\<rparr>),
       blocks := (blocks m)(o_buckets (objects m p) := buckets s)\<rparr>"

text \<open>
  The implicit copy constructor, \<^verbatim>\<open>auto copy = *this;\<close>: a new object whose members are
  copies of the members of \<^verbatim>\<open>*this\<close>.  Copying a \<^verbatim>\<open>std::vector\<close> allocates a new block and
  copies the elements into it.
\<close>

definition copy_construct :: "'b Memory \<Rightarrow> addr \<Rightarrow> 'b Memory \<times> addr" where
  "copy_construct m this =
     (let copy = next_free m; block = Suc (next_free m)
      in (m\<lparr>objects := (objects m)
               (copy := \<lparr>o_seeds = o_seeds (objects m this), o_buckets = block,
                         o_count = o_count (objects m this)\<rparr>),
            blocks := (blocks m)(block := blocks m (o_buckets (objects m this))),
            next_free := next_free m + 2\<rparr>,
          copy))"

text \<open>\<^verbatim>\<open>remove\<close> called on the object at the address \<open>p\<close>.\<close>

definition remove_at ::
  "'k::len HashFn \<Rightarrow> ('k word, 'c::len word) Bucket Memory \<Rightarrow> addr \<Rightarrow> 'k word
     \<Rightarrow> error + (bool \<times> ('k word, 'c word) Bucket Memory)" where
  "remove_at hasher m p key =
     (case remove_ibf hasher (load m p) key of
        Inl e \<Rightarrow> Inl e
      | Inr (ok, s') \<Rightarrow> Inr (ok, store_to m p s'))"

text \<open>
  \<^verbatim>\<open>listAll\<close> called on the object at the address \<open>this\<close>: the loops of \<open>scan\<close> and \<open>peel\<close>,
  reading and writing the object \<open>copy\<close> in the memory.  The final test reads \<^verbatim>\<open>count\<close> of
  \<^verbatim>\<open>*this\<close>.  The result is the memory after the call and the optional set.  The
  destruction of \<^verbatim>\<open>copy\<close> when the function returns, which releases what the call has
  allocated, is left out.
\<close>

type_synonym ('k, 'c) scan_memory =
  "('k word, 'c word) Bucket Memory \<times> 'k word set \<times> bool \<times> bool"

fun scan_at ::
  "'k::len HashFn \<Rightarrow> addr \<Rightarrow> nat list \<Rightarrow> ('k, 'c::len) scan_memory
     \<Rightarrow> error + ('k, 'c) scan_memory" where
  "scan_at hasher copy [] st = Inr st"
| "scan_at hasher copy (i # rest) (m, res, finished, has_changed) =
     (let bucket = buckets (load m copy) ! i
      in if bcount bucket = 0 then scan_at hasher copy rest (m, res, finished, has_changed)
         else if bcount bucket > 1 then scan_at hasher copy rest (m, res, False, has_changed)
         else
           (case remove_at hasher m copy (cumulative_key bucket) of
              Inl e \<Rightarrow> Inl e
            | Inr (ok, m') \<Rightarrow>
                if bcount (buckets (load m' copy) ! i) \<noteq> 0 then Inl AssertionFailed
                else scan_at hasher copy rest
                       (m', insert (cumulative_key bucket) res, finished, ok)))"

partial_function (option) peel_at ::
  "'k::len HashFn \<Rightarrow> addr \<Rightarrow> ('k, 'c::len) scan_memory
     \<Rightarrow> (error + ('k, 'c) scan_memory) option" where
  "peel_at hasher copy st =
     (if \<not> fst (snd (snd st)) \<and> snd (snd (snd st))
      then
        (let r = scan_at hasher copy [0..<length (buckets (load (fst st) copy))]
                   (fst st, fst (snd st), True, False)
         in if isl r then Some r else peel_at hasher copy (projr r))
      else Some (Inr st))"

definition listAll_at ::
  "'k::len HashFn \<Rightarrow> ('k word, 'c::len word) Bucket Memory \<Rightarrow> addr
     \<Rightarrow> (error + (('k word, 'c word) Bucket Memory \<times> 'k word set option)) option" where
  "listAll_at hasher m this =
     (case copy_construct m this of
        (m1, copy) \<Rightarrow>
          (case peel_at hasher copy (m1, {}, False, True) of
             None \<Rightarrow> None
           | Some (Inl e) \<Rightarrow> Some (Inl e)
           | Some (Inr (m2, res, finished, has_changed)) \<Rightarrow>
               Some (Inr (m2, if \<not> finished \<or> of_nat (card res) \<noteq> count (load m2 this)
                              then None else Some res))))"

text \<open>The same for the dictionary.\<close>

definition load_d ::
  "('k, 'v, 'c) Bucket_d Memory \<Rightarrow> addr \<Rightarrow> ('k, 'v, 'c) InvertibleBloomDictionary" where
  "load_d m p =
     \<lparr>seeds_d = o_seeds (objects m p), buckets_d = blocks m (o_buckets (objects m p)),
      count_d = o_count (objects m p)\<rparr>"

definition store_to_d ::
  "('k, 'v, 'c) Bucket_d Memory \<Rightarrow> addr \<Rightarrow> ('k, 'v, 'c) InvertibleBloomDictionary \<Rightarrow> ('k, 'v, 'c) Bucket_d Memory" where
  "store_to_d m p s =
     m\<lparr>objects := (objects m)(p := (objects m p)\<lparr>o_seeds := seeds_d s, o_count := count_d s\<rparr>),
       blocks := (blocks m)(o_buckets (objects m p) := buckets_d s)\<rparr>"

definition remove_at_d ::
  "'k::len HashFn \<Rightarrow> ('k word, 'v::len word, 'c::len word) Bucket_d Memory \<Rightarrow> addr \<Rightarrow> 'k word
     \<Rightarrow> error + (bool \<times> ('k word, 'v word, 'c word) Bucket_d Memory)" where
  "remove_at_d hasher m p key =
     (case remove_ibd hasher (load_d m p) key of
        Inl e \<Rightarrow> Inl e
      | Inr (ok, s') \<Rightarrow> Inr (ok, store_to_d m p s'))"

type_synonym ('k, 'v, 'c) scan_memory_d =
  "('k word, 'v word, 'c word) Bucket_d Memory \<times> ('k word \<times> 'v word) list \<times> bool \<times> bool"

fun scan_at_d ::
  "'k::len HashFn \<Rightarrow> addr \<Rightarrow> nat list \<Rightarrow> ('k, 'v::len, 'c::len) scan_memory_d
     \<Rightarrow> error + ('k, 'v, 'c) scan_memory_d" where
  "scan_at_d hasher copy [] st = Inr st"
| "scan_at_d hasher copy (i # rest) (m, res, finished, has_changed) =
     (let bucket = buckets_d (load_d m copy) ! i
      in if bcount_d bucket = 0 then scan_at_d hasher copy rest (m, res, finished, has_changed)
         else if bcount_d bucket > 1 then scan_at_d hasher copy rest (m, res, False, has_changed)
         else
           (case remove_at_d hasher m copy (cumulative_key_d bucket) of
              Inl e \<Rightarrow> Inl e
            | Inr (ok, m') \<Rightarrow>
                if bcount_d (buckets_d (load_d m' copy) ! i) \<noteq> 0 then Inl AssertionFailed
                else scan_at_d hasher copy rest
                       (m', res @ [(cumulative_key_d bucket, cumulative_value bucket)], finished, ok)))"

partial_function (option) peel_at_d ::
  "'k::len HashFn \<Rightarrow> addr \<Rightarrow> ('k, 'v::len, 'c::len) scan_memory_d
     \<Rightarrow> (error + ('k, 'v, 'c) scan_memory_d) option" where
  "peel_at_d hasher copy st =
     (if \<not> fst (snd (snd st)) \<and> snd (snd (snd st))
      then
        (let r = scan_at_d hasher copy [0..<length (buckets_d (load_d (fst st) copy))]
                   (fst st, fst (snd st), True, False)
         in if isl r then Some r else peel_at_d hasher copy (projr r))
      else Some (Inr st))"

definition listAll_at_d ::
  "'k::len HashFn \<Rightarrow> ('k word, 'v::len word, 'c::len word) Bucket_d Memory \<Rightarrow> addr
     \<Rightarrow> (error + (('k word, 'v word, 'c word) Bucket_d Memory \<times> ('k word \<times> 'v word) list option)) option" where
  "listAll_at_d hasher m this =
     (case copy_construct m this of
        (m1, copy) \<Rightarrow>
          (case peel_at_d hasher copy (m1, [], False, True) of
             None \<Rightarrow> None
           | Some (Inl e) \<Rightarrow> Some (Inl e)
           | Some (Inr (m2, res, finished, has_changed)) \<Rightarrow>
               Some (Inr (m2, if \<not> finished \<or> of_nat (length res) \<noteq> count_d (load_d m2 this)
                              then None else Some res))))"

text \<open>
  What a call on the object at \<open>p\<close> may change: the members of that object other than the
  address of its block, and the elements in that block.
\<close>

definition writes_only :: "addr \<Rightarrow> 'b Memory \<Rightarrow> 'b Memory \<Rightarrow> bool" where
  "writes_only p m m' \<longleftrightarrow>
     (\<forall>q. q \<noteq> p \<longrightarrow> objects m' q = objects m q)
     \<and> o_buckets (objects m' p) = o_buckets (objects m p)
     \<and> (\<forall>a. a \<noteq> o_buckets (objects m p) \<longrightarrow> blocks m' a = blocks m a)
     \<and> next_free m' = next_free m"

text \<open>An example memory: the structure \<open>example_two\<close> as the object at the address 0.\<close>

definition example_memory :: "(64 word, 16 word) Bucket Memory" where
  "example_memory =
     \<lparr>objects = (\<lambda>p. \<lparr>o_seeds = [0, 1, 2], o_buckets = 0, o_count = 2\<rparr>),
      blocks = (\<lambda>a. buckets example_two), next_free = 1\<rparr>"

definition example_memory_d :: "(64 word, 32 word, 16 word) Bucket_d Memory" where
  "example_memory_d =
     \<lparr>objects = (\<lambda>p. \<lparr>o_seeds = [0, 1, 2], o_buckets = 0, o_count = 2\<rparr>),
      blocks = (\<lambda>a. buckets_d example_two_d), next_free = 1\<rparr>"

section \<open>The seed loop of the constructor\<close>

lemma fold_or_True: "fold (\<lambda>seed_j a. a \<or> seed_j = r) acc True = True"
  by (induction acc) auto

lemma fold_or_False: "fold (\<lambda>seed_j a. a \<or> seed_j = r) acc False = (r \<in> set acc)"
proof (induction acc rule: rev_induct)
  case Nil
  then show ?case by simp
next
  case (snoc x xs)
  then show ?case by auto
qed

text \<open>Once the flag is set, no later draw can end the loop.\<close>

lemma redraw_stuck: "redraw dist n accepted ae = Some y \<Longrightarrow> \<not> ae"
proof (erule redraw.raw_induct [where P = "\<lambda>dist n accepted ae y. \<not> ae", rotated])
  fix f :: "(nat \<Rightarrow> Seed) \<Rightarrow> nat \<Rightarrow> Seed list \<Rightarrow> bool \<Rightarrow> (Seed \<times> nat) option"
  fix dist n accepted ae y
  assume IH: "\<And>dist n accepted ae y. f dist n accepted ae = Some y \<Longrightarrow> \<not> ae"
  assume step: "(let rand_seed = dist n;
          already_exists' = fold (\<lambda>seed_j a. a \<or> seed_j = rand_seed) accepted ae
      in if already_exists' then f dist (Suc n) accepted already_exists'
         else Some (rand_seed, Suc n)) = Some y"
  show "\<not> ae"
  proof
    assume ae
    then have "f dist (Suc n) accepted True = Some y"
      using step by (simp add: Let_def fold_or_True)
    from IH [OF this] show False by simp
  qed
qed

lemma redraw_True: "redraw dist n accepted True = None"
  using redraw_stuck [of dist n accepted True] by (cases "redraw dist n accepted True") auto

lemma redraw_fresh:
  "dist n \<notin> set accepted \<Longrightarrow> redraw dist n accepted False = Some (dist n, Suc n)"
  by (subst redraw.simps) (simp add: fold_or_False)

lemma redraw_collision: "dist n \<in> set accepted \<Longrightarrow> redraw dist n accepted False = None"
  by (subst redraw.simps) (simp add: fold_or_False redraw_True)

lemma redraw_False:
  "redraw dist n accepted False = (if dist n \<in> set accepted then None else Some (dist n, Suc n))"
  by (simp add: redraw_fresh redraw_collision)

lemma seed_loop_result:
  "seed_loop dist r n sds = Some out \<Longrightarrow> distinct sds \<Longrightarrow>
   length out = length sds + r \<and> distinct out"
proof (induction r arbitrary: n sds)
  case 0
  then show ?case by simp
next
  case (Suc r)
  from Suc.prems(1) have fresh: "dist n \<notin> set sds"
    by (auto simp: redraw_False split: if_splits)
  with Suc.prems(1) have "seed_loop dist r (Suc n) (sds @ [dist n]) = Some out"
    by (simp add: redraw_False)
  from Suc.IH [OF this] fresh Suc.prems(2) show ?case by simp
qed

lemma seed_loop_length: "seed_loop dist r n sds = Some out \<Longrightarrow> length out = length sds + r"
proof (induction r arbitrary: n sds)
  case 0
  then show ?case by simp
next
  case (Suc r)
  from Suc.prems have fresh: "dist n \<notin> set sds"
    by (auto simp: redraw_False split: if_splits)
  with Suc.prems have "seed_loop dist r (Suc n) (sds @ [dist n]) = Some out"
    by (simp add: redraw_False)
  from Suc.IH [OF this] show ?case by simp
qed

section \<open>Positions of a list\<close>

lemma length_apply_at [simp]: "length (apply_at A f xs) = length xs"
  by (simp add: apply_at_def)

lemma nth_apply_at [simp]:
  "i < length xs \<Longrightarrow> apply_at A f xs ! i = (if i \<in> A then f (xs ! i) else xs ! i)"
  by (simp add: apply_at_def)

lemma apply_at_empty [simp]: "apply_at {} f xs = xs"
  by (simp add: list_eq_iff_nth_eq)

lemma apply_at_Nil_iff [simp]: "apply_at A f xs = [] \<longleftrightarrow> xs = []"
  by (simp add: apply_at_def)

lemma list_update_apply_at: "xs[j := f (xs ! j)] = apply_at {j} f xs"
  by (auto simp: list_eq_iff_nth_eq nth_list_update)

lemma apply_at_apply_at:
  "A \<inter> B = {} \<Longrightarrow> apply_at A f (apply_at B f xs) = apply_at (A \<union> B) f xs"
  by (auto simp: list_eq_iff_nth_eq)

lemma apply_at_inverse:
  "(\<And>b. g (f b) = b) \<Longrightarrow> apply_at A g (apply_at A f xs) = xs"
  by (auto simp: list_eq_iff_nth_eq)

lemma slot_less: "0 < n \<Longrightarrow> slot hasher n key seed < n"
  by (simp add: slot_def)

lemma probes_less: "0 < n \<Longrightarrow> i \<in> probes hasher n sds key \<Longrightarrow> i < n"
  by (auto simp: probes_def slot_less)

lemma probes_Cons:
  "probes hasher n (seed # sds) key = insert (slot hasher n key seed) (probes hasher n sds key)"
  by (simp add: probes_def)

lemma probes_Nil [simp]: "probes hasher n [] key = {}"
  by (simp add: probes_def)

lemma slot_in_probes: "seed \<in> set sds \<Longrightarrow> slot hasher n key seed \<in> probes hasher n sds key"
  by (simp add: probes_def)

lemma probes_nonempty: "sds \<noteq> [] \<Longrightarrow> probes hasher n sds key \<noteq> {}"
  by (simp add: probes_def)

lemma finite_probes [simp]: "finite (probes hasher n sds key)"
  by (simp add: probes_def)


section \<open>The operations of InvertibleBloomFilter on a non-empty directory\<close>

lemma hash_index_slot:
  "buckets s \<noteq> [] \<Longrightarrow>
   hash_index hasher s key seed = Inr (slot hasher (length (buckets s)) key seed)"
  by (simp add: hash_index_def slot_def)

lemma hash_index_empty: "buckets s = [] \<Longrightarrow> hash_index hasher s key seed = Inl DivisionByZero"
  by (simp add: hash_index_def)

lemma sub_add_key [simp]: "sub_key key (add_key key b) = b"
  by (simp add: sub_key_def add_key_def xor.assoc)

lemma upd_add_key:
  "bs[i := (bs ! i)\<lparr>cumulative_key := cumulative_key (bs ! i) XOR key,
                     bcount := bcount (bs ! i) + 1\<rparr>]
     = apply_at {i} (add_key key) bs"
  using list_update_apply_at [of bs i "add_key key"] by (simp add: add_key_def)

lemma upd_sub_key:
  "bs[i := (bs ! i)\<lparr>cumulative_key := cumulative_key (bs ! i) XOR key,
                     bcount := bcount (bs ! i) - 1\<rparr>]
     = apply_at {i} (sub_key key) bs"
  using list_update_apply_at [of bs i "sub_key key"] by (simp add: sub_key_def)

lemma insert_loop_step_seen:
  "buckets s \<noteq> [] \<Longrightarrow> slot hasher (length (buckets s)) key seed \<in> seen \<Longrightarrow>
   insert_loop hasher key (seed # sds) seen s = insert_loop hasher key sds seen s"
  by (simp add: hash_index_slot)

lemma insert_loop_step_new:
  "buckets s \<noteq> [] \<Longrightarrow> slot hasher (length (buckets s)) key seed \<notin> seen \<Longrightarrow>
   insert_loop hasher key (seed # sds) seen s =
     insert_loop hasher key sds (insert (slot hasher (length (buckets s)) key seed) seen)
       (s\<lparr>buckets := apply_at {slot hasher (length (buckets s)) key seed} (add_key key)
                        (buckets s)\<rparr>)"
  by (simp add: hash_index_slot Let_def upd_add_key)

text \<open>
  The loop of \<^verbatim>\<open>insert\<close> updates every probe of the key that was not seen before, once,
  whatever the number of seeds that lead to it.
\<close>

lemma insert_loop_char:
  "buckets s \<noteq> [] \<Longrightarrow>
   insert_loop hasher key sds seen s =
     Inr (s\<lparr>buckets := apply_at (probes hasher (length (buckets s)) sds key - seen)
                           (add_key key) (buckets s)\<rparr>)"
proof (induction sds arbitrary: seen s)
  case Nil
  then show ?case by simp
next
  case (Cons seed sds)
  let ?n = "length (buckets s)"
  let ?i = "slot hasher ?n key seed"
  show ?case
  proof (cases "?i \<in> seen")
    case True
    then have "probes hasher ?n (seed # sds) key - seen = probes hasher ?n sds key - seen"
      by (auto simp: probes_Cons)
    then show ?thesis
      using Cons.IH [OF Cons.prems, of seen] insert_loop_step_seen [OF Cons.prems True, where sds = sds]
      by simp
  next
    case False
    let ?s' = "s\<lparr>buckets := apply_at {?i} (add_key key) (buckets s)\<rparr>"
    have ne: "buckets ?s' \<noteq> []" using Cons.prems by simp
    have eq: "(probes hasher ?n sds key - insert ?i seen) \<union> {?i}
                = probes hasher ?n (seed # sds) key - seen"
      using False by (auto simp: probes_Cons)
    have "insert_loop hasher key (seed # sds) seen s
            = insert_loop hasher key sds (insert ?i seen) ?s'"
      by (rule insert_loop_step_new [OF Cons.prems False])
    also have "\<dots> = Inr (?s'\<lparr>buckets := apply_at (probes hasher ?n sds key - insert ?i seen)
                           (add_key key) (buckets ?s')\<rparr>)"
      using Cons.IH [OF ne, of "insert ?i seen"] by simp
    also have "\<dots> = Inr (s\<lparr>buckets := apply_at (probes hasher ?n (seed # sds) key - seen)
                           (add_key key) (buckets s)\<rparr>)"
      using eq by (simp add: apply_at_apply_at)
    finally show ?thesis .
  qed
qed

lemma insert_ibf_char:
  "buckets s \<noteq> [] \<Longrightarrow>
   insert_ibf hasher s key =
     Inr (s\<lparr>buckets := apply_at (probes hasher (length (buckets s)) (seeds s) key)
                           (add_key key) (buckets s),
            count := count s + 1\<rparr>)"
  by (simp add: insert_ibf_def insert_loop_char)

lemma remove_loop_step_seen:
  "buckets s \<noteq> [] \<Longrightarrow> slot hasher (length (buckets s)) key seed \<in> seen \<Longrightarrow>
   remove_loop hasher key (seed # sds) seen s = remove_loop hasher key sds seen s"
  by (simp add: hash_index_slot)

lemma remove_loop_step_assert:
  "buckets s \<noteq> [] \<Longrightarrow> slot hasher (length (buckets s)) key seed \<notin> seen \<Longrightarrow>
   bcount (buckets s ! slot hasher (length (buckets s)) key seed) = 0 \<Longrightarrow>
   remove_loop hasher key (seed # sds) seen s = Inl AssertionFailed"
  by (simp add: hash_index_slot Let_def)

lemma remove_loop_step_new:
  "buckets s \<noteq> [] \<Longrightarrow> slot hasher (length (buckets s)) key seed \<notin> seen \<Longrightarrow>
   bcount (buckets s ! slot hasher (length (buckets s)) key seed) \<noteq> 0 \<Longrightarrow>
   remove_loop hasher key (seed # sds) seen s =
     remove_loop hasher key sds (insert (slot hasher (length (buckets s)) key seed) seen)
       (s\<lparr>buckets := apply_at {slot hasher (length (buckets s)) key seed} (sub_key key)
                        (buckets s)\<rparr>)"
  by (simp add: hash_index_slot Let_def upd_sub_key word_greater_zero_iff)

text \<open>
  The loop of \<^verbatim>\<open>remove\<close> decrements every unseen probe once, and stops at its assertion
  when one of them holds the count 0.
\<close>

lemma remove_loop_char:
  "buckets s \<noteq> [] \<Longrightarrow>
   remove_loop hasher key sds seen s =
     (if \<forall>i \<in> probes hasher (length (buckets s)) sds key - seen. bcount (buckets s ! i) \<noteq> 0
      then Inr (s\<lparr>buckets := apply_at (probes hasher (length (buckets s)) sds key - seen)
                           (sub_key key) (buckets s)\<rparr>)
      else Inl AssertionFailed)"
proof (induction sds arbitrary: seen s)
  case Nil
  then show ?case by simp
next
  case (Cons seed sds)
  let ?n = "length (buckets s)"
  let ?i = "slot hasher ?n key seed"
  have npos: "0 < ?n" using Cons.prems by simp
  show ?case
  proof (cases "?i \<in> seen")
    case True
    then have "probes hasher ?n (seed # sds) key - seen = probes hasher ?n sds key - seen"
      by (auto simp: probes_Cons)
    then show ?thesis
      using Cons.IH [OF Cons.prems, of seen] remove_loop_step_seen [OF Cons.prems True, where sds = sds]
      by simp
  next
    case False
    show ?thesis
    proof (cases "bcount (buckets s ! ?i) = 0")
      case True
      have "?i \<in> probes hasher ?n (seed # sds) key - seen"
        using False by (simp add: probes_Cons)
      then have "\<not> (\<forall>i \<in> probes hasher ?n (seed # sds) key - seen.
                      bcount (buckets s ! i) \<noteq> 0)"
        using True by blast
      then show ?thesis
        using remove_loop_step_assert [OF Cons.prems False True, where sds = sds] by simp
    next
      case nz: False
      let ?s' = "s\<lparr>buckets := apply_at {?i} (sub_key key) (buckets s)\<rparr>"
      let ?A = "probes hasher ?n sds key - insert ?i seen"
      have ne: "buckets ?s' \<noteq> []" using Cons.prems by simp
      have eq: "?A \<union> {?i} = probes hasher ?n (seed # sds) key - seen"
        using False by (auto simp: probes_Cons)
      have same: "bcount (buckets ?s' ! j) = bcount (buckets s ! j)" if "j \<in> ?A" for j
        using that probes_less [OF npos, of j hasher sds key] by auto
      have all: "(\<forall>j \<in> ?A. bcount (buckets ?s' ! j) \<noteq> 0)
                 = (\<forall>j \<in> probes hasher ?n (seed # sds) key - seen.
                      bcount (buckets s ! j) \<noteq> 0)"
        using nz same unfolding eq [symmetric] by auto
      have "remove_loop hasher key (seed # sds) seen s
              = remove_loop hasher key sds (insert ?i seen) ?s'"
        by (rule remove_loop_step_new [OF Cons.prems False nz])
      also have "\<dots> = (if \<forall>j \<in> ?A. bcount (buckets ?s' ! j) \<noteq> 0
                       then Inr (?s'\<lparr>buckets := apply_at ?A (sub_key key) (buckets ?s')\<rparr>)
                       else Inl AssertionFailed)"
        using Cons.IH [OF ne, of "insert ?i seen"] by simp
      also have "\<dots> = (if \<forall>j \<in> probes hasher ?n (seed # sds) key - seen.
                            bcount (buckets s ! j) \<noteq> 0
                       then Inr (s\<lparr>buckets := apply_at (probes hasher ?n (seed # sds) key - seen)
                           (sub_key key) (buckets s)\<rparr>)
                       else Inl AssertionFailed)"
        unfolding all using eq by (simp add: apply_at_apply_at)
      finally show ?thesis .
    qed
  qed
qed

text \<open>\<^verbatim>\<open>contains\<close>: the first probe with a singleton bucket decides.\<close>

lemma contains_loop_char:
  "buckets s \<noteq> [] \<Longrightarrow>
   contains_loop hasher s key sds might =
     (case find (\<lambda>seed. bcount (buckets s ! slot hasher (length (buckets s)) key seed) = 1) sds of
        Some seed \<Rightarrow>
          Inr (if key = cumulative_key (buckets s ! slot hasher (length (buckets s)) key seed)
               then exists else not_found)
      | None \<Rightarrow>
          Inr (if might \<or> (\<exists>seed \<in> set sds.
                    bcount (buckets s ! slot hasher (length (buckets s)) key seed) > 1)
               then might_exist else not_found))"
proof (induction sds arbitrary: might)
  case Nil
  then show ?case by simp
next
  case (Cons seed sds)
  show ?case
    using Cons.prems Cons.IH [OF Cons.prems]
    by (auto simp add: hash_index_slot Let_def split: option.splits)
qed

lemma contains_ibf_char:
  "buckets s \<noteq> [] \<Longrightarrow>
   contains_ibf hasher s key =
     (case find (\<lambda>seed. bcount (buckets s ! slot hasher (length (buckets s)) key seed) = 1)
             (seeds s) of
        Some seed \<Rightarrow>
          Inr (if key = cumulative_key (buckets s ! slot hasher (length (buckets s)) key seed)
               then exists else not_found)
      | None \<Rightarrow>
          Inr (if \<exists>seed \<in> set (seeds s).
                    bcount (buckets s ! slot hasher (length (buckets s)) key seed) > 1
               then might_exist else not_found))"
  by (auto simp add: contains_ibf_def contains_loop_char split: option.splits)

lemma remove_ibf_char:
  "buckets s \<noteq> [] \<Longrightarrow>
   remove_ibf hasher s key =
     (if contains_ibf hasher s key \<noteq> Inr exists then Inr (False, s)
      else if \<forall>i \<in> probes hasher (length (buckets s)) (seeds s) key. bcount (buckets s ! i) \<noteq> 0
      then Inr (True, s\<lparr>buckets := apply_at (probes hasher (length (buckets s)) (seeds s) key)
                           (sub_key key) (buckets s), count := count s - 1\<rparr>)
      else Inl AssertionFailed)"
  by (auto simp add: remove_ibf_def remove_loop_char contains_ibf_char split: option.splits)

lemma contains_loop_empty:
  "buckets s = [] \<Longrightarrow> sds \<noteq> [] \<Longrightarrow> contains_loop hasher s key sds might = Inl DivisionByZero"
  by (cases sds) (simp_all add: hash_index_empty)


section \<open>The operations of InvertibleBloomDictionary on a non-empty directory\<close>

lemma hash_index_d_slot:
  "buckets_d s \<noteq> [] \<Longrightarrow>
   hash_index_d hasher s key seed = Inr (slot hasher (length (buckets_d s)) key seed)"
  by (simp add: hash_index_d_def slot_def)

lemma hash_index_d_empty: "buckets_d s = [] \<Longrightarrow> hash_index_d hasher s key seed = Inl DivisionByZero"
  by (simp add: hash_index_d_def)

lemma sub_add_kv [simp]: "sub_kv key val (add_kv key val b) = b"
  by (simp add: sub_kv_def add_kv_def xor.assoc)

lemma upd_add_kv:
  "bs[i := (bs ! i)\<lparr>cumulative_key_d := cumulative_key_d (bs ! i) XOR key,
                     cumulative_value := cumulative_value (bs ! i) XOR val,
                     bcount_d := bcount_d (bs ! i) + 1\<rparr>]
     = apply_at {i} (add_kv key val) bs"
  using list_update_apply_at [of bs i "add_kv key val"] by (simp add: add_kv_def)

lemma upd_sub_kv:
  "bs[i := (bs ! i)\<lparr>cumulative_key_d := cumulative_key_d (bs ! i) XOR key,
                     cumulative_value := cumulative_value (bs ! i) XOR val,
                     bcount_d := bcount_d (bs ! i) - 1\<rparr>]
     = apply_at {i} (sub_kv key val) bs"
  using list_update_apply_at [of bs i "sub_kv key val"] by (simp add: sub_kv_def)

lemma insert_loop_d_step_seen:
  "buckets_d s \<noteq> [] \<Longrightarrow> slot hasher (length (buckets_d s)) key seed \<in> seen \<Longrightarrow>
   insert_loop_d hasher key val (seed # sds) seen s = insert_loop_d hasher key val sds seen s"
  by (simp add: hash_index_d_slot)

lemma insert_loop_d_step_new:
  "buckets_d s \<noteq> [] \<Longrightarrow> slot hasher (length (buckets_d s)) key seed \<notin> seen \<Longrightarrow>
   insert_loop_d hasher key val (seed # sds) seen s =
     insert_loop_d hasher key val sds (insert (slot hasher (length (buckets_d s)) key seed) seen)
       (s\<lparr>buckets_d := apply_at {slot hasher (length (buckets_d s)) key seed} (add_kv key val)
                        (buckets_d s)\<rparr>)"
  by (simp add: hash_index_d_slot Let_def upd_add_kv)

text \<open>
  The loop of \<^verbatim>\<open>insert\<close> updates every probe of the key that was not seen before, once,
  whatever the number of seeds that lead to it.
\<close>

lemma insert_loop_d_char:
  "buckets_d s \<noteq> [] \<Longrightarrow>
   insert_loop_d hasher key val sds seen s =
     Inr (s\<lparr>buckets_d := apply_at (probes hasher (length (buckets_d s)) sds key - seen)
                           (add_kv key val) (buckets_d s)\<rparr>)"
proof (induction sds arbitrary: seen s)
  case Nil
  then show ?case by simp
next
  case (Cons seed sds)
  let ?n = "length (buckets_d s)"
  let ?i = "slot hasher ?n key seed"
  show ?case
  proof (cases "?i \<in> seen")
    case True
    then have "probes hasher ?n (seed # sds) key - seen = probes hasher ?n sds key - seen"
      by (auto simp: probes_Cons)
    then show ?thesis
      using Cons.IH [OF Cons.prems, of seen] insert_loop_d_step_seen [OF Cons.prems True, where sds = sds]
      by simp
  next
    case False
    let ?s' = "s\<lparr>buckets_d := apply_at {?i} (add_kv key val) (buckets_d s)\<rparr>"
    have ne: "buckets_d ?s' \<noteq> []" using Cons.prems by simp
    have eq: "(probes hasher ?n sds key - insert ?i seen) \<union> {?i}
                = probes hasher ?n (seed # sds) key - seen"
      using False by (auto simp: probes_Cons)
    have "insert_loop_d hasher key val (seed # sds) seen s
            = insert_loop_d hasher key val sds (insert ?i seen) ?s'"
      by (rule insert_loop_d_step_new [OF Cons.prems False])
    also have "\<dots> = Inr (?s'\<lparr>buckets_d := apply_at (probes hasher ?n sds key - insert ?i seen)
                           (add_kv key val) (buckets_d ?s')\<rparr>)"
      using Cons.IH [OF ne, of "insert ?i seen"] by simp
    also have "\<dots> = Inr (s\<lparr>buckets_d := apply_at (probes hasher ?n (seed # sds) key - seen)
                           (add_kv key val) (buckets_d s)\<rparr>)"
      using eq by (simp add: apply_at_apply_at)
    finally show ?thesis .
  qed
qed

lemma insert_ibd_char:
  "buckets_d s \<noteq> [] \<Longrightarrow>
   insert_ibd hasher s key val =
     Inr (s\<lparr>buckets_d := apply_at (probes hasher (length (buckets_d s)) (seeds_d s) key)
                           (add_kv key val) (buckets_d s),
            count_d := count_d s + 1\<rparr>)"
  by (simp add: insert_ibd_def insert_loop_d_char)

lemma remove_loop_d_step_seen:
  "buckets_d s \<noteq> [] \<Longrightarrow> slot hasher (length (buckets_d s)) key seed \<in> seen \<Longrightarrow>
   remove_loop_d hasher key val (seed # sds) seen s = remove_loop_d hasher key val sds seen s"
  by (simp add: hash_index_d_slot)

lemma remove_loop_d_step_assert:
  "buckets_d s \<noteq> [] \<Longrightarrow> slot hasher (length (buckets_d s)) key seed \<notin> seen \<Longrightarrow>
   bcount_d (buckets_d s ! slot hasher (length (buckets_d s)) key seed) = 0 \<Longrightarrow>
   remove_loop_d hasher key val (seed # sds) seen s = Inl AssertionFailed"
  by (simp add: hash_index_d_slot Let_def)

lemma remove_loop_d_step_new:
  "buckets_d s \<noteq> [] \<Longrightarrow> slot hasher (length (buckets_d s)) key seed \<notin> seen \<Longrightarrow>
   bcount_d (buckets_d s ! slot hasher (length (buckets_d s)) key seed) \<noteq> 0 \<Longrightarrow>
   remove_loop_d hasher key val (seed # sds) seen s =
     remove_loop_d hasher key val sds (insert (slot hasher (length (buckets_d s)) key seed) seen)
       (s\<lparr>buckets_d := apply_at {slot hasher (length (buckets_d s)) key seed} (sub_kv key val)
                        (buckets_d s)\<rparr>)"
  by (simp add: hash_index_d_slot Let_def upd_sub_kv word_greater_zero_iff)

text \<open>
  The loop of \<^verbatim>\<open>remove\<close> decrements every unseen probe once, and stops at its assertion
  when one of them holds the count 0.
\<close>

lemma remove_loop_d_char:
  "buckets_d s \<noteq> [] \<Longrightarrow>
   remove_loop_d hasher key val sds seen s =
     (if \<forall>i \<in> probes hasher (length (buckets_d s)) sds key - seen. bcount_d (buckets_d s ! i) \<noteq> 0
      then Inr (s\<lparr>buckets_d := apply_at (probes hasher (length (buckets_d s)) sds key - seen)
                           (sub_kv key val) (buckets_d s)\<rparr>)
      else Inl AssertionFailed)"
proof (induction sds arbitrary: seen s)
  case Nil
  then show ?case by simp
next
  case (Cons seed sds)
  let ?n = "length (buckets_d s)"
  let ?i = "slot hasher ?n key seed"
  have npos: "0 < ?n" using Cons.prems by simp
  show ?case
  proof (cases "?i \<in> seen")
    case True
    then have "probes hasher ?n (seed # sds) key - seen = probes hasher ?n sds key - seen"
      by (auto simp: probes_Cons)
    then show ?thesis
      using Cons.IH [OF Cons.prems, of seen] remove_loop_d_step_seen [OF Cons.prems True, where sds = sds]
      by simp
  next
    case False
    show ?thesis
    proof (cases "bcount_d (buckets_d s ! ?i) = 0")
      case True
      have "?i \<in> probes hasher ?n (seed # sds) key - seen"
        using False by (simp add: probes_Cons)
      then have "\<not> (\<forall>i \<in> probes hasher ?n (seed # sds) key - seen.
                      bcount_d (buckets_d s ! i) \<noteq> 0)"
        using True by blast
      then show ?thesis
        using remove_loop_d_step_assert [OF Cons.prems False True, where sds = sds] by simp
    next
      case nz: False
      let ?s' = "s\<lparr>buckets_d := apply_at {?i} (sub_kv key val) (buckets_d s)\<rparr>"
      let ?A = "probes hasher ?n sds key - insert ?i seen"
      have ne: "buckets_d ?s' \<noteq> []" using Cons.prems by simp
      have eq: "?A \<union> {?i} = probes hasher ?n (seed # sds) key - seen"
        using False by (auto simp: probes_Cons)
      have same: "bcount_d (buckets_d ?s' ! j) = bcount_d (buckets_d s ! j)" if "j \<in> ?A" for j
        using that probes_less [OF npos, of j hasher sds key] by auto
      have all: "(\<forall>j \<in> ?A. bcount_d (buckets_d ?s' ! j) \<noteq> 0)
                 = (\<forall>j \<in> probes hasher ?n (seed # sds) key - seen.
                      bcount_d (buckets_d s ! j) \<noteq> 0)"
        using nz same unfolding eq [symmetric] by auto
      have "remove_loop_d hasher key val (seed # sds) seen s
              = remove_loop_d hasher key val sds (insert ?i seen) ?s'"
        by (rule remove_loop_d_step_new [OF Cons.prems False nz])
      also have "\<dots> = (if \<forall>j \<in> ?A. bcount_d (buckets_d ?s' ! j) \<noteq> 0
                       then Inr (?s'\<lparr>buckets_d := apply_at ?A (sub_kv key val) (buckets_d ?s')\<rparr>)
                       else Inl AssertionFailed)"
        using Cons.IH [OF ne, of "insert ?i seen"] by simp
      also have "\<dots> = (if \<forall>j \<in> probes hasher ?n (seed # sds) key - seen.
                            bcount_d (buckets_d s ! j) \<noteq> 0
                       then Inr (s\<lparr>buckets_d := apply_at (probes hasher ?n (seed # sds) key - seen)
                           (sub_kv key val) (buckets_d s)\<rparr>)
                       else Inl AssertionFailed)"
        unfolding all using eq by (simp add: apply_at_apply_at)
      finally show ?thesis .
    qed
  qed
qed

text \<open>\<^verbatim>\<open>contains\<close>: the first probe with a singleton bucket decides.\<close>

lemma contains_loop_d_char:
  "buckets_d s \<noteq> [] \<Longrightarrow>
   contains_loop_d hasher s key sds might =
     (case find (\<lambda>seed. bcount_d (buckets_d s ! slot hasher (length (buckets_d s)) key seed) = 1) sds of
        Some seed \<Rightarrow>
          Inr (if key = cumulative_key_d (buckets_d s ! slot hasher (length (buckets_d s)) key seed)
               then exists else not_found)
      | None \<Rightarrow>
          Inr (if might \<or> (\<exists>seed \<in> set sds.
                    bcount_d (buckets_d s ! slot hasher (length (buckets_d s)) key seed) > 1)
               then might_exist else not_found))"
proof (induction sds arbitrary: might)
  case Nil
  then show ?case by simp
next
  case (Cons seed sds)
  show ?case
    using Cons.prems Cons.IH [OF Cons.prems]
    by (auto simp add: hash_index_d_slot Let_def split: option.splits)
qed

lemma contains_ibd_char:
  "buckets_d s \<noteq> [] \<Longrightarrow>
   contains_ibd hasher s key =
     (case find (\<lambda>seed. bcount_d (buckets_d s ! slot hasher (length (buckets_d s)) key seed) = 1)
             (seeds_d s) of
        Some seed \<Rightarrow>
          Inr (if key = cumulative_key_d (buckets_d s ! slot hasher (length (buckets_d s)) key seed)
               then exists else not_found)
      | None \<Rightarrow>
          Inr (if \<exists>seed \<in> set (seeds_d s).
                    bcount_d (buckets_d s ! slot hasher (length (buckets_d s)) key seed) > 1
               then might_exist else not_found))"
  by (auto simp add: contains_ibd_def contains_loop_d_char split: option.splits)

text \<open>\<^verbatim>\<open>get\<close> follows the same traversal.\<close>

lemma get_loop_char:
  "buckets_d s \<noteq> [] \<Longrightarrow>
   get_loop hasher s key sds =
     (case find (\<lambda>seed. bcount_d (buckets_d s ! slot hasher (length (buckets_d s)) key seed) = 1)
             sds of
        Some seed \<Rightarrow>
          Inr (if key = cumulative_key_d (buckets_d s ! slot hasher (length (buckets_d s)) key seed)
               then Some (cumulative_value
                            (buckets_d s ! slot hasher (length (buckets_d s)) key seed))
               else None)
      | None \<Rightarrow> Inr None)"
proof (induction sds)
  case Nil
  then show ?case by simp
next
  case (Cons seed sds)
  show ?case
    using Cons.prems Cons.IH [OF Cons.prems]
    by (auto simp add: hash_index_d_slot Let_def split: option.splits)
qed

lemma get_ibd_char:
  "buckets_d s \<noteq> [] \<Longrightarrow>
   get_ibd hasher s key =
     (case find (\<lambda>seed. bcount_d (buckets_d s ! slot hasher (length (buckets_d s)) key seed) = 1)
             (seeds_d s) of
        Some seed \<Rightarrow>
          Inr (if key = cumulative_key_d (buckets_d s ! slot hasher (length (buckets_d s)) key seed)
               then Some (cumulative_value
                            (buckets_d s ! slot hasher (length (buckets_d s)) key seed))
               else None)
      | None \<Rightarrow> Inr None)"
  by (simp add: get_ibd_def get_loop_char)

lemma get_ibd_Some_iff_exists:
  "buckets_d s \<noteq> [] \<Longrightarrow>
   (\<exists>val. get_ibd hasher s key = Inr (Some val)) \<longleftrightarrow> contains_ibd hasher s key = Inr exists"
  by (auto simp: get_ibd_char contains_ibd_char split: option.splits)

lemma get_ibd_total: "buckets_d s \<noteq> [] \<Longrightarrow> \<exists>r. get_ibd hasher s key = Inr r"
  by (auto simp: get_ibd_char split: option.splits)

lemma remove_ibd_char:
  "buckets_d s \<noteq> [] \<Longrightarrow>
   remove_ibd hasher s key =
     (case get_ibd hasher s key of
        Inl e \<Rightarrow> Inl e
      | Inr None \<Rightarrow> Inr (False, s)
      | Inr (Some val) \<Rightarrow>
          if \<forall>i \<in> probes hasher (length (buckets_d s)) (seeds_d s) key.
               bcount_d (buckets_d s ! i) \<noteq> 0
          then Inr (True, s\<lparr>buckets_d := apply_at (probes hasher (length (buckets_d s)) (seeds_d s) key)
                           (sub_kv key val) (buckets_d s), count_d := count_d s - 1\<rparr>)
          else Inl AssertionFailed)"
  by (auto simp add: remove_ibd_def remove_loop_d_char split: option.splits sum.splits)

lemma contains_loop_d_empty:
  "buckets_d s = [] \<Longrightarrow> sds \<noteq> [] \<Longrightarrow> contains_loop_d hasher s key sds might = Inl DivisionByZero"
  by (cases sds) (simp_all add: hash_index_d_empty)


section \<open>The decode loop, step by step\<close>

lemma word_gt_1_iff: "1 < x \<longleftrightarrow> x \<noteq> 0 \<and> x \<noteq> 1" for x :: "'a::len word"
  using word_less_1 [of x] by (auto simp: less_le not_le [symmetric] not_less)

lemma two_word:
  "1 < LENGTH('c::len) \<Longrightarrow>
   (2 :: 'c word) \<noteq> 0 \<and> (2 :: 'c word) \<noteq> 1 \<and> 1 < (2 :: 'c word)"
  by (auto simp: word_gt_1_iff)

lemma peel_stop:
  "fin \<or> \<not> hc \<Longrightarrow> peel hasher (copy, res, fin, hc) = Some (Inr (copy, res, fin, hc))"
  by (subst peel.simps) auto

lemma peel_step:
  "\<not> fin \<Longrightarrow> hc \<Longrightarrow>
   peel hasher (copy, res, fin, hc) =
     (case scan hasher [0..<length (buckets copy)] (copy, res, True, False) of
        Inl e \<Rightarrow> Some (Inl e)
      | Inr st \<Rightarrow> peel hasher st)"
  by (subst peel.simps) (auto simp: Let_def split: sum.splits)

lemma peel_d_stop:
  "fin \<or> \<not> hc \<Longrightarrow> peel_d hasher (copy, res, fin, hc) = Some (Inr (copy, res, fin, hc))"
  by (subst peel_d.simps) auto

lemma peel_d_step:
  "\<not> fin \<Longrightarrow> hc \<Longrightarrow>
   peel_d hasher (copy, res, fin, hc) =
     (case scan_d hasher [0..<length (buckets_d copy)] (copy, res, True, False) of
        Inl e \<Rightarrow> Some (Inl e)
      | Inr st \<Rightarrow> peel_d hasher st)"
  by (subst peel_d.simps) (auto simp: Let_def split: sum.splits)

text \<open>A scan that meets no singleton bucket changes nothing but the flag \<^verbatim>\<open>finished\<close>.\<close>

lemma scan_no_singleton:
  "\<forall>i \<in> set is. bcount (buckets copy ! i) \<noteq> 1 \<Longrightarrow>
   scan hasher is (copy, res, fin, hc) =
     Inr (copy, res, fin \<and> (\<forall>i \<in> set is. bcount (buckets copy ! i) = 0), hc)"
proof (induction "is" arbitrary: fin)
  case Nil
  then show ?case by simp
next
  case (Cons i "is")
  then show ?case by (auto simp: Let_def word_gt_1_iff)
qed

lemma m1337: "Murmur3Finalizer 1337 = 6557339690562012544"
  by (simp add: Murmur3Finalizer_def Let_def)

lemma upt10: "[0..<10] = [0, 1, 2, 3, 4, 5, 6, 7, 8, 9 :: nat]"
  by (simp add: upt_conv_Cons numeral_eq_Suc)

lemma example_one_insert: "insert_ibf Murmur3Finalizer example_fresh 1337 = Inr example_one"
  by (simp add: example_fresh_def example_one_def insert_ibf_def hash_index_def m1337 Let_def)

lemma example_one_d_insert:
  "insert_ibd Murmur3Finalizer example_fresh_d 1337 42 = Inr example_one_d"
  by (simp add: example_fresh_d_def example_one_d_def insert_ibd_def hash_index_d_def m1337 Let_def)

lemma example_one_listAll:
  "listAll_ibf Murmur3Finalizer example_one = Some (Inr (example_one, Some {1337}))"
proof -
  have "scan Murmur3Finalizer [0..<length (buckets example_one)] (example_one, {}, True, False)
          = Inr (example_one\<lparr>buckets := (buckets example_one)
                                   [4 := \<lparr>cumulative_key = 0, bcount = 0\<rparr>,
                                    5 := \<lparr>cumulative_key = 0, bcount = 0\<rparr>,
                                    6 := \<lparr>cumulative_key = 0, bcount = 0\<rparr>], count := 0\<rparr>,
                 {1337}, True, True)"
    by (simp add: example_one_def upt10 remove_ibf_def contains_ibf_def hash_index_def m1337
          Let_def)
  then have "peel Murmur3Finalizer (example_one, {}, False, True)
          = Some (Inr (example_one\<lparr>buckets := (buckets example_one)
                                   [4 := \<lparr>cumulative_key = 0, bcount = 0\<rparr>,
                                    5 := \<lparr>cumulative_key = 0, bcount = 0\<rparr>,
                                    6 := \<lparr>cumulative_key = 0, bcount = 0\<rparr>],
                                    count := 0\<rparr>, {1337}, True, True))"
    using peel_step [of False True Murmur3Finalizer example_one "{}"] by (simp add: peel_stop)
  then show ?thesis
    by (simp add: listAll_ibf_def) (simp add: example_one_def)
qed

lemma example_one_d_listAll:
  "listAll_ibd Murmur3Finalizer example_one_d = Some (Inr (example_one_d, Some [(1337, 42)]))"
proof -
  have "scan_d Murmur3Finalizer [0..<length (buckets_d example_one_d)]
            (example_one_d, [], True, False)
          = Inr (example_one_d\<lparr>buckets_d := (buckets_d example_one_d)
                    [4 := \<lparr>cumulative_key_d = 0, cumulative_value = 0, bcount_d = 0\<rparr>,
                     5 := \<lparr>cumulative_key_d = 0, cumulative_value = 0, bcount_d = 0\<rparr>,
                     6 := \<lparr>cumulative_key_d = 0, cumulative_value = 0, bcount_d = 0\<rparr>],
                  count_d := 0\<rparr>,
                 [(1337, 42)], True, True)"
    by (simp add: example_one_d_def upt10 remove_ibd_def get_ibd_def hash_index_d_def m1337
          Let_def)
  then have "peel_d Murmur3Finalizer (example_one_d, [], False, True)
          = Some (Inr (example_one_d\<lparr>buckets_d := (buckets_d example_one_d)
                    [4 := \<lparr>cumulative_key_d = 0, cumulative_value = 0, bcount_d = 0\<rparr>,
                     5 := \<lparr>cumulative_key_d = 0, cumulative_value = 0, bcount_d = 0\<rparr>,
                     6 := \<lparr>cumulative_key_d = 0, cumulative_value = 0, bcount_d = 0\<rparr>],
                  count_d := 0\<rparr>, [(1337, 42)], True, True))"
    using peel_d_step [of False True Murmur3Finalizer example_one_d "[]"] by (simp add: peel_d_stop)
  then show ?thesis
    by (simp add: listAll_ibd_def) (simp add: example_one_d_def)
qed

lemma m1: "Murmur3Finalizer 1 = 12994781566227106604"
  by (simp add: Murmur3Finalizer_def Let_def)

lemma m86: "Murmur3Finalizer 86 = 5602547976895141687"
  by (simp add: Murmur3Finalizer_def Let_def)

text \<open>The structures with two keys: insertion and decoding.\<close>

lemma example_two_insert: "insert_ibf Murmur3Finalizer example_one 86 = Inr example_two"
  by (simp add: example_one_def example_two_def insert_ibf_def hash_index_def m86 Let_def)
     (simp add: list_eq_iff_nth_eq nth_list_update)

lemma example_two_d_insert:
  "insert_ibd Murmur3Finalizer example_one_d 86 89 = Inr example_two_d"
  by (simp add: example_one_d_def example_two_d_def insert_ibd_def hash_index_d_def m86 Let_def)
     (simp add: list_eq_iff_nth_eq nth_list_update)

lemma example_two_scan:
  "\<exists>copy'. scan Murmur3Finalizer [0..<length (buckets example_two)] (example_two, {}, True, False)
          = Inr (copy', {1337, 86}, True, True)"
  by (simp add: example_two_def upt10 remove_ibf_def contains_ibf_def hash_index_def m1337 m86
        Let_def insert_commute)

lemma example_two_d_scan:
  "\<exists>copy'. scan_d Murmur3Finalizer [0..<length (buckets_d example_two_d)]
            (example_two_d, [], True, False)
          = Inr (copy', [(1337, 42), (86, 89)], True, True)"
  by (simp add: example_two_d_def upt10 remove_ibd_def get_ibd_def hash_index_d_def m1337 m86
          Let_def)


lemma example_two_listAll:
  "listAll_ibf Murmur3Finalizer example_two = Some (Inr (example_two, Some {1337, 86}))"
proof -
  from example_two_scan obtain copy' where
    "scan Murmur3Finalizer [0..<length (buckets example_two)] (example_two, {}, True, False)
          = Inr (copy', {1337, 86}, True, True)" by blast
  then have "peel Murmur3Finalizer (example_two, {}, False, True)
          = Some (Inr (copy', {1337, 86}, True, True))"
    using peel_step [of False True Murmur3Finalizer example_two "{}"] by (simp add: peel_stop)
  then show ?thesis
    by (simp add: listAll_ibf_def) (simp add: example_two_def)
qed

lemma example_two_d_listAll:
  "listAll_ibd Murmur3Finalizer example_two_d
     = Some (Inr (example_two_d, Some [(1337, 42), (86, 89)]))"
proof -
  from example_two_d_scan obtain copy' where
    "scan_d Murmur3Finalizer [0..<length (buckets_d example_two_d)]
            (example_two_d, [], True, False)
          = Inr (copy', [(1337, 42), (86, 89)], True, True)" by blast
  then have "peel_d Murmur3Finalizer (example_two_d, [], False, True)
          = Some (Inr (copy', [(1337, 42), (86, 89)], True, True))"
    using peel_d_step [of False True Murmur3Finalizer example_two_d "[]"] by (simp add: peel_d_stop)
  then show ?thesis
    by (simp add: listAll_ibd_def) (simp add: example_two_d_def)
qed

section \<open>Termination of the decode loop\<close>

lemma sum_list_apply_at_le:
  assumes "\<And>b. m (g b) \<le> (m b :: nat)"
  shows "sum_list (map m (apply_at A g xs)) \<le> sum_list (map m xs)"
proof -
  have "sum_list (map m (apply_at A g xs)) = (\<Sum>i = 0..<length xs. m (apply_at A g xs ! i))"
    by (simp add: sum_list_sum_nth)
  also have "\<dots> \<le> (\<Sum>i = 0..<length xs. m (xs ! i))"
    by (rule sum_mono) (simp add: assms)
  also have "\<dots> = sum_list (map m xs)"
    by (simp add: sum_list_sum_nth)
  finally show ?thesis .
qed

lemma sum_list_apply_at_less:
  assumes "\<And>i. i \<in> A \<Longrightarrow> i < length xs \<Longrightarrow> m (g (xs ! i)) < (m (xs ! i) :: nat)"
    and "a \<in> A" "a < length xs"
  shows "sum_list (map m (apply_at A g xs)) < sum_list (map m xs)"
proof -
  have "sum_list (map m (apply_at A g xs)) = (\<Sum>i = 0..<length xs. m (apply_at A g xs ! i))"
    by (simp add: sum_list_sum_nth)
  also have "\<dots> < (\<Sum>i = 0..<length xs. m (xs ! i))"
  proof (rule sum_strict_mono_ex1)
    show "finite {0..<length xs}" by simp
    show "\<forall>i\<in>{0..<length xs}. m (apply_at A g xs ! i) \<le> m (xs ! i)"
      using assms(1) by (auto simp: less_imp_le)
    show "\<exists>i\<in>{0..<length xs}. m (apply_at A g xs ! i) < m (xs ! i)"
      using assms by (intro bexI [of _ a]) auto
  qed
  also have "\<dots> = sum_list (map m xs)"
    by (simp add: sum_list_sum_nth)
  finally show ?thesis .
qed

lemma unat_bcount_sub_key:
  "bcount b \<noteq> 0 \<Longrightarrow> unat (bcount (sub_key key b)) < unat (bcount b)"
  by (simp add: sub_key_def unat_minus_one unat_gt_0)

lemma contains_exists_seeds:
  "contains_ibf hasher s key = Inr exists \<Longrightarrow> seeds s \<noteq> []"
  by (auto simp: contains_ibf_def)

text \<open>What one call of remove does to the occupancy and the logical count.\<close>

lemma remove_ibf_progress:
  assumes ne: "buckets s \<noteq> []" and r: "remove_ibf hasher s key = Inr (ok, s')"
  shows "length (buckets s') = length (buckets s)"
    and "\<not> ok \<Longrightarrow> s' = s"
    and "ok \<Longrightarrow> occupancy s' < occupancy s \<and> count s' = count s - 1"
proof -
  let ?P = "probes hasher (length (buckets s)) (seeds s) key"
  show "length (buckets s') = length (buckets s)"
    using r by (auto simp: remove_ibf_char [OF ne] split: if_splits)
  show "s' = s" if "\<not> ok"
    using r that by (auto simp: remove_ibf_char [OF ne] split: if_splits)
  show "occupancy s' < occupancy s \<and> count s' = count s - 1" if ok
  proof -
    from r that have ex: "contains_ibf hasher s key = Inr exists"
      and nz: "\<forall>i \<in> ?P. bcount (buckets s ! i) \<noteq> 0"
      and s': "s' = s\<lparr>buckets := apply_at ?P (sub_key key) (buckets s), count := count s - 1\<rparr>"
      by (auto simp: remove_ibf_char [OF ne] split: if_splits)
    from contains_exists_seeds [OF ex] obtain a where a: "a \<in> ?P"
      using probes_nonempty by blast
    have al: "a < length (buckets s)"
      using a ne by (auto intro: probes_less)
    have "sum_list (map (\<lambda>b. unat (bcount b)) (apply_at ?P (sub_key key) (buckets s)))
            < sum_list (map (\<lambda>b. unat (bcount b)) (buckets s))"
      using nz a al by (intro sum_list_apply_at_less [of ?P _ _ _ a]) (auto simp: unat_bcount_sub_key)
    then show ?thesis by (simp add: s' occupancy_def)
  qed
qed

lemma scan_progress:
  "scan hasher is (copy, res, fin, hc) = Inr (copy', res', fin', hc') \<Longrightarrow>
   \<forall>i \<in> set is. i < length (buckets copy) \<Longrightarrow>
   length (buckets copy') = length (buckets copy)
   \<and> occupancy copy' \<le> occupancy copy
   \<and> (\<exists>j \<le> length is. count copy' = count copy - of_nat j \<and> (hc' \<longrightarrow> hc \<or> 0 < j))
   \<and> (hc' \<longrightarrow> hc \<or> occupancy copy' < occupancy copy)"
proof (induction "is" arbitrary: copy res fin hc)
  case Nil
  then show ?case by auto
next
  case (Cons i "is")
  let ?b = "buckets copy ! i"
  have il: "i < length (buckets copy)" using Cons.prems(2) by simp
  then have ne: "buckets copy \<noteq> []" by auto
  consider (zero) "bcount ?b = 0" | (many) "bcount ?b \<noteq> 0" "1 < bcount ?b"
    | (one) "bcount ?b \<noteq> 0" "\<not> 1 < bcount ?b" by blast
  then show ?case
  proof cases
    case zero
    with Cons.prems have "scan hasher is (copy, res, fin, hc) = Inr (copy', res', fin', hc')"
      by simp
    from Cons.IH [OF this] Cons.prems(2) show ?thesis
      by (auto intro: le_SucI)
  next
    case many
    with Cons.prems have "scan hasher is (copy, res, False, hc) = Inr (copy', res', fin', hc')"
      by simp
    from Cons.IH [OF this] Cons.prems(2) show ?thesis
      by (auto intro: le_SucI)
  next
    case one
    with Cons.prems(1) obtain ok copy1 where
      rem: "remove_ibf hasher copy (cumulative_key ?b) = Inr (ok, copy1)"
      and rest: "scan hasher is (copy1, insert (cumulative_key ?b) res, fin, ok)
                   = Inr (copy', res', fin', hc')"
      by (auto simp: Let_def split: sum.splits if_splits)
    note p = remove_ibf_progress [OF ne rem]
    have "\<forall>i \<in> set is. i < length (buckets copy1)" using Cons.prems(2) p(1) by simp
    from Cons.IH [OF rest this] obtain j where
      len: "length (buckets copy') = length (buckets copy1)"
      and occ: "occupancy copy' \<le> occupancy copy1"
      and j: "j \<le> length is" "count copy' = count copy1 - of_nat j" "hc' \<longrightarrow> ok \<or> 0 < j"
      and str: "hc' \<longrightarrow> ok \<or> occupancy copy' < occupancy copy1"
      by blast
    show ?thesis
    proof (cases ok)
      case True
      from p(3) [OF True] have o1: "occupancy copy1 < occupancy copy" and c1: "count copy1 = count copy - 1"
        by simp_all
      have "count copy' = count copy - of_nat (Suc j)"
        using j(2) c1 by simp
      then show ?thesis
        using len p(1) occ o1 j(1) by (intro conjI exI [of _ "Suc j"]) auto
    next
      case False
      from p(2) [OF False] have eq: "copy1 = copy" .
      show ?thesis
        using len occ j str False unfolding eq
        by (intro conjI exI [of _ j]) auto
    qed
  qed
qed

lemma peel_terminates: "\<exists>r. peel hasher (copy, res, fin, hc) = Some r"
proof (induction "occupancy copy" arbitrary: copy res fin hc rule: less_induct)
  case less
  show ?case
  proof (cases "\<not> fin \<and> hc")
    case False
    then show ?thesis by (auto simp: peel_stop)
  next
    case True
    show ?thesis
    proof (cases "scan hasher [0..<length (buckets copy)] (copy, res, True, False)")
      case (Inl e)
      then show ?thesis using True by (simp add: peel_step)
    next
      case (Inr st)
      obtain copy' res' fin' hc' where st: "st = (copy', res', fin', hc')"
        by (cases st) auto
      from scan_progress [OF Inr [unfolded st]]
      have dec: "hc' \<longrightarrow> occupancy copy' < occupancy copy" by simp
      have "\<exists>r. peel hasher (copy', res', fin', hc') = Some r"
      proof (cases hc')
        case True
        with dec have "occupancy copy' < occupancy copy" by simp
        then show ?thesis by (rule less)
      next
        case False
        then show ?thesis by (simp add: peel_stop)
      qed
      then show ?thesis using True Inr st by (simp add: peel_step)
    qed
  qed
qed

lemma listAll_ibf_terminates: "\<exists>r. listAll_ibf hasher s = Some r"
proof -
  obtain r where "peel hasher (s, {}, False, True) = Some r"
    using peel_terminates by blast
  then show ?thesis
    by (cases r) (auto simp: listAll_ibf_def)
qed

lemma unat_bcount_sub_kv:
  "bcount_d b \<noteq> 0 \<Longrightarrow> unat (bcount_d (sub_kv key val b)) < unat (bcount_d b)"
  by (simp add: sub_kv_def unat_minus_one unat_gt_0)

lemma get_Some_seeds: "get_ibd hasher s key = Inr (Some val) \<Longrightarrow> seeds_d s \<noteq> []"
  by (auto simp: get_ibd_def)

lemma remove_ibd_progress:
  assumes ne: "buckets_d s \<noteq> []" and r: "remove_ibd hasher s key = Inr (ok, s')"
  shows "length (buckets_d s') = length (buckets_d s)"
    and "\<not> ok \<Longrightarrow> s' = s"
    and "ok \<Longrightarrow> occupancy_d s' < occupancy_d s \<and> count_d s' = count_d s - 1"
proof -
  let ?P = "probes hasher (length (buckets_d s)) (seeds_d s) key"
  show "length (buckets_d s') = length (buckets_d s)"
    using r by (auto simp: remove_ibd_char [OF ne] split: if_splits sum.splits option.splits)
  show "s' = s" if "\<not> ok"
    using r that by (auto simp: remove_ibd_char [OF ne] split: if_splits sum.splits option.splits)
  show "occupancy_d s' < occupancy_d s \<and> count_d s' = count_d s - 1" if ok
  proof -
    from r that obtain val where ex: "get_ibd hasher s key = Inr (Some val)"
      and nz: "\<forall>i \<in> ?P. bcount_d (buckets_d s ! i) \<noteq> 0"
      and s': "s' = s\<lparr>buckets_d := apply_at ?P (sub_kv key val) (buckets_d s),
                        count_d := count_d s - 1\<rparr>"
      by (auto simp: remove_ibd_char [OF ne] split: if_splits sum.splits option.splits)
    from get_Some_seeds [OF ex] obtain a where a: "a \<in> ?P"
      using probes_nonempty by blast
    have al: "a < length (buckets_d s)"
      using a ne by (auto intro: probes_less)
    have "sum_list (map (\<lambda>b. unat (bcount_d b)) (apply_at ?P (sub_kv key val) (buckets_d s)))
            < sum_list (map (\<lambda>b. unat (bcount_d b)) (buckets_d s))"
      using nz a al
      by (intro sum_list_apply_at_less [of ?P _ _ _ a]) (auto simp: unat_bcount_sub_kv)
    then show ?thesis by (simp add: s' occupancy_d_def)
  qed
qed

lemma scan_d_progress:
  "scan_d hasher is (copy, res, fin, hc) = Inr (copy', res', fin', hc') \<Longrightarrow>
   \<forall>i \<in> set is. i < length (buckets_d copy) \<Longrightarrow>
   length (buckets_d copy') = length (buckets_d copy)
   \<and> occupancy_d copy' \<le> occupancy_d copy
   \<and> (\<exists>j \<le> length is. count_d copy' = count_d copy - of_nat j \<and> (hc' \<longrightarrow> hc \<or> 0 < j))
   \<and> (hc' \<longrightarrow> hc \<or> occupancy_d copy' < occupancy_d copy)"
proof (induction "is" arbitrary: copy res fin hc)
  case Nil
  then show ?case by auto
next
  case (Cons i "is")
  let ?b = "buckets_d copy ! i"
  have il: "i < length (buckets_d copy)" using Cons.prems(2) by simp
  then have ne: "buckets_d copy \<noteq> []" by auto
  consider (zero) "bcount_d ?b = 0" | (many) "bcount_d ?b \<noteq> 0" "1 < bcount_d ?b"
    | (one) "bcount_d ?b \<noteq> 0" "\<not> 1 < bcount_d ?b" by blast
  then show ?case
  proof cases
    case zero
    with Cons.prems have "scan_d hasher is (copy, res, fin, hc) = Inr (copy', res', fin', hc')"
      by simp
    from Cons.IH [OF this] Cons.prems(2) show ?thesis
      by (auto intro: le_SucI)
  next
    case many
    with Cons.prems have "scan_d hasher is (copy, res, False, hc) = Inr (copy', res', fin', hc')"
      by simp
    from Cons.IH [OF this] Cons.prems(2) show ?thesis
      by (auto intro: le_SucI)
  next
    case one
    with Cons.prems(1) obtain ok copy1 where
      rem: "remove_ibd hasher copy (cumulative_key_d ?b) = Inr (ok, copy1)"
      and rest: "scan_d hasher is (copy1, res @ [(cumulative_key_d ?b, cumulative_value ?b)], fin, ok)
                   = Inr (copy', res', fin', hc')"
      by (auto simp: Let_def split: sum.splits if_splits)
    note p = remove_ibd_progress [OF ne rem]
    have "\<forall>i \<in> set is. i < length (buckets_d copy1)" using Cons.prems(2) p(1) by simp
    from Cons.IH [OF rest this] obtain j where
      len: "length (buckets_d copy') = length (buckets_d copy1)"
      and occ: "occupancy_d copy' \<le> occupancy_d copy1"
      and j: "j \<le> length is" "count_d copy' = count_d copy1 - of_nat j" "hc' \<longrightarrow> ok \<or> 0 < j"
      and str: "hc' \<longrightarrow> ok \<or> occupancy_d copy' < occupancy_d copy1"
      by blast
    show ?thesis
    proof (cases ok)
      case True
      from p(3) [OF True] have o1: "occupancy_d copy1 < occupancy_d copy" and c1: "count_d copy1 = count_d copy - 1"
        by simp_all
      have "count_d copy' = count_d copy - of_nat (Suc j)"
        using j(2) c1 by simp
      then show ?thesis
        using len p(1) occ o1 j(1) by (intro conjI exI [of _ "Suc j"]) auto
    next
      case False
      from p(2) [OF False] have eq: "copy1 = copy" .
      show ?thesis
        using len occ j str False unfolding eq
        by (intro conjI exI [of _ j]) auto
    qed
  qed
qed

lemma peel_d_terminates: "\<exists>r. peel_d hasher (copy, res, fin, hc) = Some r"
proof (induction "occupancy_d copy" arbitrary: copy res fin hc rule: less_induct)
  case less
  show ?case
  proof (cases "\<not> fin \<and> hc")
    case False
    then show ?thesis by (auto simp: peel_d_stop)
  next
    case True
    show ?thesis
    proof (cases "scan_d hasher [0..<length (buckets_d copy)] (copy, res, True, False)")
      case (Inl e)
      then show ?thesis using True by (simp add: peel_d_step)
    next
      case (Inr st)
      obtain copy' res' fin' hc' where st: "st = (copy', res', fin', hc')"
        by (cases st) auto
      from scan_d_progress [OF Inr [unfolded st]]
      have dec: "hc' \<longrightarrow> occupancy_d copy' < occupancy_d copy" by simp
      have "\<exists>r. peel_d hasher (copy', res', fin', hc') = Some r"
      proof (cases hc')
        case True
        with dec have "occupancy_d copy' < occupancy_d copy" by simp
        then show ?thesis by (rule less)
      next
        case False
        then show ?thesis by (simp add: peel_d_stop)
      qed
      then show ?thesis using True Inr st by (simp add: peel_d_step)
    qed
  qed
qed

lemma listAll_ibd_terminates: "\<exists>r. listAll_ibd hasher s = Some r"
proof -
  obtain r where "peel_d hasher (s, [], False, True) = Some r"
    using peel_d_terminates by blast
  then show ?thesis
    by (cases r) (auto simp: listAll_ibd_def)
qed

section \<open>Structures and the keys they hold\<close>

lemma xor_list_Nil [simp]: "xor_list [] = 0"
  by (simp add: xor_list_def)

lemma xor_list_Cons [simp]: "xor_list (k # ks) = k XOR xor_list ks"
  by (simp add: xor_list_def)

lemma xor_list_remove1: "k \<in> set ks \<Longrightarrow> xor_list (remove1 k ks) = xor_list ks XOR k"
proof (induction ks)
  case Nil
  then show ?case by simp
next
  case (Cons a ks)
  show ?case
  proof (cases "a = k")
    case True
    then show ?thesis by (simp add: xor.commute xor.left_commute)
  next
    case False
    with Cons show ?thesis by (simp add: xor.assoc)
  qed
qed

lemma routed_Cons:
  "routed hasher n sds i (k # ks) =
     (if i \<in> probes hasher n sds k then k # routed hasher n sds i ks else routed hasher n sds i ks)"
  by (simp add: routed_def)

lemma routed_remove1:
  "routed hasher n sds i (remove1 k ks) =
     (if i \<in> probes hasher n sds k then remove1 k (routed hasher n sds i ks)
      else routed hasher n sds i ks)"
  by (simp add: routed_def filter_remove1)

lemma routed_Nil [simp]: "routed hasher n sds i [] = []"
  by (simp add: routed_def)

lemma set_routed: "set (routed hasher n sds i ks) = {k \<in> set ks. i \<in> probes hasher n sds k}"
  by (simp add: routed_def)

lemma length_routed_le: "length (routed hasher n sds i ks) \<le> length ks"
  by (simp add: routed_def)

lemma of_nat_eq_1_small:
  "m < 2 ^ LENGTH('c::len) \<Longrightarrow> (of_nat m :: 'c word) = 1 \<Longrightarrow> m = 1"
  by (metis of_nat_inverse unat_1 unsigned_1)

lemma of_nat_eq_0_small:
  "m < 2 ^ LENGTH('c::len) \<Longrightarrow> (of_nat m :: 'c word) = 0 \<Longrightarrow> m = 0"
  by (metis of_nat_inverse unat_0 unsigned_0)

lemma consistent_fresh: "0 < n \<Longrightarrow> fresh n s \<Longrightarrow> consistent hasher s []"
  by (auto simp: consistent_def fresh_def)

lemma consistent_insert:
  assumes c: "consistent hasher s ks" and i: "insert_ibf hasher s key = Inr s'"
  shows "consistent hasher s' (key # ks)"
proof -
  have ne: "buckets s \<noteq> []" using c by (simp add: consistent_def)
  let ?n = "length (buckets s)"
  have s': "s' = s\<lparr>buckets := apply_at (probes hasher ?n (seeds s) key) (add_key key) (buckets s),
                    count := count s + 1\<rparr>"
    using i insert_ibf_char [OF ne, of hasher key] by simp
  show ?thesis
    using c unfolding consistent_def s'
    by (auto simp: routed_Cons add_key_def xor.commute)
qed

text \<open>A singleton bucket of a consistent structure holds one present key, in clear.\<close>

lemma consistent_singleton:
  fixes s :: "('k::len word, 'c::len word) InvertibleBloomFilter"
  assumes c: "consistent hasher s ks" and b: "within_capacity hasher s ks"
    and i: "i < length (buckets s)" and one: "bcount (buckets s ! i) = 1"
  shows "routed hasher (length (buckets s)) (seeds s) i ks = [cumulative_key (buckets s ! i)]"
proof -
  let ?r = "routed hasher (length (buckets s)) (seeds s) i ks"
  have bi: "buckets s ! i = \<lparr>cumulative_key = xor_list ?r, bcount = of_nat (length ?r)\<rparr>"
    using c i by (simp add: consistent_def)
  have "length ?r < 2 ^ LENGTH('c)"
    using b i by (simp add: within_capacity_def)
  moreover have "(of_nat (length ?r) :: 'c word) = 1" using one bi by simp
  ultimately have "length ?r = 1" by (rule of_nat_eq_1_small)
  then obtain y where y: "?r = [y]" by (cases ?r) auto
  then show ?thesis using bi by simp
qed

lemma consistent_present_nonzero:
  fixes s :: "('k::len word, 'c::len word) InvertibleBloomFilter"
  assumes c: "consistent hasher s ks" and b: "within_capacity hasher s ks"
    and i: "i \<in> probes hasher (length (buckets s)) (seeds s) key" and k: "key \<in> set ks"
  shows "bcount (buckets s ! i) \<noteq> 0" and "i < length (buckets s)"
    and "key \<in> set (routed hasher (length (buckets s)) (seeds s) i ks)"
proof -
  let ?r = "routed hasher (length (buckets s)) (seeds s) i ks"
  have ne: "buckets s \<noteq> []" using c by (simp add: consistent_def)
  show il: "i < length (buckets s)" using i ne by (auto intro: probes_less)
  show kr: "key \<in> set ?r" using i k by (simp add: set_routed)
  have bi: "buckets s ! i = \<lparr>cumulative_key = xor_list ?r, bcount = of_nat (length ?r)\<rparr>"
    using c il by (simp add: consistent_def)
  have "length ?r < 2 ^ LENGTH('c)"
    using b il by (simp add: within_capacity_def)
  moreover have "length ?r \<noteq> 0" using kr by auto
  ultimately have "(of_nat (length ?r) :: 'c word) \<noteq> 0" using of_nat_eq_0_small by blast
  then show "bcount (buckets s ! i) \<noteq> 0" using bi by simp
qed

lemma of_nat_diff_1: "0 < m \<Longrightarrow> (of_nat (m - Suc 0) :: 'c::len word) = of_nat m - 1"
  by (cases m) simp_all

text \<open>Exactness on a singleton probe, for consistent structures.\<close>

lemma consistent_contains_singleton:
  fixes s :: "('k::len word, 'c::len word) InvertibleBloomFilter"
  assumes c: "consistent hasher s ks" and b: "within_capacity hasher s ks"
    and sd: "seed \<in> set (seeds s)"
    and one: "bcount (buckets s ! slot hasher (length (buckets s)) key seed) = 1"
  shows "contains_ibf hasher s key = Inr (if key \<in> set ks then exists else not_found)"
proof -
  let ?n = "length (buckets s)"
  let ?Q = "\<lambda>sd. bcount (buckets s ! slot hasher ?n key sd) = 1"
  have ne: "buckets s \<noteq> []" using c by (simp add: consistent_def)
  from sd one obtain sd1 where f: "find ?Q (seeds s) = Some sd1"
    by (cases "find ?Q (seeds s)") (auto simp: find_None_iff)
  then have q1: "?Q sd1" and in1: "sd1 \<in> set (seeds s)"
    by (auto simp: find_Some_iff)
  let ?i = "slot hasher ?n key sd1"
  have iP: "?i \<in> probes hasher ?n (seeds s) key" using in1 by (rule slot_in_probes)
  have il: "?i < ?n" using ne by (simp add: slot_less)
  from consistent_singleton [OF c b il q1]
  have r: "routed hasher ?n (seeds s) ?i ks = [cumulative_key (buckets s ! ?i)]" .
  have "key = cumulative_key (buckets s ! ?i) \<longleftrightarrow> key \<in> set ks"
  proof
    assume "key = cumulative_key (buckets s ! ?i)"
    then have "key \<in> set (routed hasher ?n (seeds s) ?i ks)" using r by simp
    then show "key \<in> set ks" by (simp add: set_routed)
  next
    assume "key \<in> set ks"
    then have "key \<in> set (routed hasher ?n (seeds s) ?i ks)" using iP by (simp add: set_routed)
    then show "key = cumulative_key (buckets s ! ?i)" using r by simp
  qed
  then show ?thesis
    using f by (simp add: contains_ibf_char [OF ne])
qed

text \<open>No false negatives, for consistent structures.\<close>

lemma consistent_contains_present:
  fixes s :: "('k::len word, 'c::len word) InvertibleBloomFilter"
  assumes c: "consistent hasher s ks" and b: "within_capacity hasher s ks"
    and sds: "seeds s \<noteq> []" and k: "key \<in> set ks"
  shows "contains_ibf hasher s key = Inr exists \<or> contains_ibf hasher s key = Inr might_exist"
proof -
  let ?n = "length (buckets s)"
  let ?Q = "\<lambda>sd. bcount (buckets s ! slot hasher ?n key sd) = 1"
  have ne: "buckets s \<noteq> []" using c by (simp add: consistent_def)
  show ?thesis
  proof (cases "\<exists>sd \<in> set (seeds s). ?Q sd")
    case True
    then obtain sd where "sd \<in> set (seeds s)" "?Q sd" by blast
    from consistent_contains_singleton [OF c b this] k show ?thesis by simp
  next
    case False
    then have f: "find ?Q (seeds s) = None" by (simp add: find_None_iff)
    obtain sd where sd: "sd \<in> set (seeds s)" using sds by (cases "seeds s") auto
    have "slot hasher ?n key sd \<in> probes hasher ?n (seeds s) key" using sd by (rule slot_in_probes)
    from consistent_present_nonzero(1) [OF c b this k] False sd
    have "1 < bcount (buckets s ! slot hasher ?n key sd)"
      by (auto simp: word_gt_1_iff)
    with sd f show ?thesis
      by (auto simp: contains_ibf_char [OF ne])
  qed
qed

lemma consistent_contains_exists:
  fixes s :: "('k::len word, 'c::len word) InvertibleBloomFilter"
  assumes c: "consistent hasher s ks" and b: "within_capacity hasher s ks"
    and ex: "contains_ibf hasher s key = Inr exists"
  shows "key \<in> set ks"
proof -
  let ?n = "length (buckets s)"
  let ?Q = "\<lambda>sd. bcount (buckets s ! slot hasher ?n key sd) = 1"
  have ne: "buckets s \<noteq> []" using c by (simp add: consistent_def)
  from ex obtain sd where f: "find ?Q (seeds s) = Some sd"
    by (cases "find ?Q (seeds s)") (auto simp: contains_ibf_char [OF ne] split: if_splits)
  then have "?Q sd" "sd \<in> set (seeds s)" by (auto simp: find_Some_iff)
  from consistent_contains_singleton [OF c b this(2,1)] ex show ?thesis
    by (auto split: if_splits)
qed

lemma consistent_remove:
  fixes s :: "('k::len word, 'c::len word) InvertibleBloomFilter"
  assumes c: "consistent hasher s ks" and b: "within_capacity hasher s ks"
    and r: "remove_ibf hasher s key = Inr (True, s')"
  shows "key \<in> set ks" and "consistent hasher s' (remove1 key ks)"
    and "within_capacity hasher s' (remove1 key ks)"
proof -
  let ?n = "length (buckets s)"
  let ?P = "probes hasher ?n (seeds s) key"
  have ne: "buckets s \<noteq> []" using c by (simp add: consistent_def)
  from r have ex: "contains_ibf hasher s key = Inr exists"
    and s': "s' = s\<lparr>buckets := apply_at ?P (sub_key key) (buckets s), count := count s - 1\<rparr>"
    by (auto simp: remove_ibf_char [OF ne] split: if_splits)
  show k: "key \<in> set ks" by (rule consistent_contains_exists [OF c b ex])
  have pos: "0 < length ks" using k by (cases ks) auto
  have cnt: "count s' = of_nat (length (remove1 key ks))"
    using c k pos by (simp add: s' consistent_def length_remove1 of_nat_diff_1)
  have bk: "buckets s' ! i =
          \<lparr>cumulative_key = xor_list (routed hasher ?n (seeds s) i (remove1 key ks)),
           bcount = of_nat (length (routed hasher ?n (seeds s) i (remove1 key ks)))\<rparr>"
    if il: "i < ?n" for i
  proof (cases "i \<in> ?P")
    case False
    then show ?thesis using c il by (simp add: s' consistent_def routed_remove1)
  next
    case True
    let ?r = "routed hasher ?n (seeds s) i ks"
    have kr: "key \<in> set ?r" using True k by (simp add: set_routed)
    then have rpos: "0 < length ?r" by (cases ?r) auto
    have bi: "buckets s ! i = \<lparr>cumulative_key = xor_list ?r, bcount = of_nat (length ?r)\<rparr>"
      using c il by (simp add: consistent_def)
    show ?thesis
      using True il kr rpos
      by (simp add: s' bi sub_key_def routed_remove1 xor_list_remove1 length_remove1 of_nat_diff_1)
  qed
  show "consistent hasher s' (remove1 key ks)"
    unfolding consistent_def using ne cnt bk by (simp add: s')
  have "length (routed hasher ?n (seeds s) i (remove1 key ks))
          \<le> length (routed hasher ?n (seeds s) i ks)" for i
    by (simp add: routed_remove1 length_remove1)
  then show "within_capacity hasher s' (remove1 key ks)"
    using b unfolding within_capacity_def s' by (auto intro: le_less_trans)
qed

lemma of_nat_max_small:
  "m < 2 ^ LENGTH('c::len) \<Longrightarrow> (of_nat m :: 'c word) \<noteq> - 1 \<Longrightarrow> Suc m < 2 ^ LENGTH('c)"
proof (rule ccontr)
  assume m: "m < 2 ^ LENGTH('c)" and n: "(of_nat m :: 'c word) \<noteq> - 1"
    and "\<not> Suc m < 2 ^ LENGTH('c)"
  then have "Suc m = 2 ^ LENGTH('c)" by simp
  then have "(of_nat (Suc m) :: 'c word) = 0" by (simp only: of_nat_power of_nat_numeral) simp
  then have "(of_nat m :: 'c word) = - 1" by (simp add: eq_neg_iff_add_eq_0 add.commute)
  with n show False by simp
qed

lemma within_capacity_fresh: "fresh n s \<Longrightarrow> within_capacity hasher s []"
  by (simp add: within_capacity_def)

lemma within_capacity_insert:
  fixes s :: "('k::len word, 'c::len word) InvertibleBloomFilter"
  assumes c: "consistent hasher s ks" and b: "within_capacity hasher s ks"
    and g: "\<forall>i \<in> probes hasher (length (buckets s)) (seeds s) key. bcount (buckets s ! i) \<noteq> - 1"
    and i: "insert_ibf hasher s key = Inr s'"
  shows "within_capacity hasher s' (key # ks)"
proof -
  have ne: "buckets s \<noteq> []" using c by (simp add: consistent_def)
  let ?n = "length (buckets s)"
  have s': "s' = s\<lparr>buckets := apply_at (probes hasher ?n (seeds s) key) (add_key key) (buckets s),
                    count := count s + 1\<rparr>"
    using i insert_ibf_char [OF ne, of hasher key] by simp
  have "length (routed hasher ?n (seeds s) j (key # ks)) < 2 ^ LENGTH('c)" if j: "j < ?n" for j
  proof (cases "j \<in> probes hasher ?n (seeds s) key")
    case False
    then show ?thesis using b j by (simp add: routed_Cons within_capacity_def)
  next
    case True
    let ?r = "routed hasher ?n (seeds s) j ks"
    have "length ?r < 2 ^ LENGTH('c)" using b j by (simp add: within_capacity_def)
    moreover have "(of_nat (length ?r) :: 'c word) \<noteq> - 1"
    proof -
      from c j have "bcount (buckets s ! j) = of_nat (length ?r)" by (simp add: consistent_def)
      moreover from g True have "bcount (buckets s ! j) \<noteq> - 1" by blast
      ultimately show ?thesis by simp
    qed
    ultimately have "Suc (length ?r) < 2 ^ LENGTH('c)" by (rule of_nat_max_small)
    with True show ?thesis by (simp add: routed_Cons)
  qed
  then show ?thesis by (simp add: within_capacity_def s')
qed

lemma reachable_consistent:
  fixes s :: "('k::len word, 'c::len word) InvertibleBloomFilter"
  shows "reachable hasher s ks \<Longrightarrow> consistent hasher s ks \<and> within_capacity hasher s ks"
proof (induction rule: reachable.induct)
  case (reachable_fresh n s)
  then show ?case by (simp add: consistent_fresh within_capacity_fresh)
next
  case (reachable_insert s ks key s')
  then show ?case
    by (auto intro: consistent_insert within_capacity_insert)
next
  case (reachable_remove s ks key s')
  then show ?case
    using consistent_remove(2,3) [of hasher s ks key s'] by auto
qed


section \<open>Decoding a consistent structure\<close>

lemma insert_set_remove1: "y \<in> set ks \<Longrightarrow> insert y (set (remove1 y ks)) = set ks"
  by (induction ks) auto

lemma scan_decoding_aux:
  fixes copy :: "('k::len word, 'c::len word) InvertibleBloomFilter"
  assumes "scan hasher is (copy, res, fin, hc) = Inr st'"
    and "\<forall>i \<in> set is. i < length (buckets copy)"
    and "decoding hasher ks0 (copy, res, fin0, hc0)"
  shows "decoding hasher ks0 st'"
  using assms
proof (induction "is" arbitrary: copy res fin hc fin0 hc0)
  case Nil
  then show ?case by (auto simp: decoding_def)
next
  case (Cons i "is")
  let ?b = "buckets copy ! i"
  have il: "i < length (buckets copy)" using Cons.prems(2) by simp
  then have ne: "buckets copy \<noteq> []" by auto
  consider (zero) "bcount ?b = 0" | (many) "bcount ?b \<noteq> 0" "1 < bcount ?b"
    | (one) "bcount ?b \<noteq> 0" "\<not> 1 < bcount ?b" by blast
  then show ?case
  proof cases
    case zero
    with Cons.prems(1) have "scan hasher is (copy, res, fin, hc) = Inr st'" by simp
    from Cons.IH [OF this _ Cons.prems(3)] Cons.prems(2) show ?thesis by simp
  next
    case many
    with Cons.prems(1) have "scan hasher is (copy, res, False, hc) = Inr st'" by simp
    from Cons.IH [OF this _ Cons.prems(3)] Cons.prems(2) show ?thesis by simp
  next
    case one
    let ?y = "cumulative_key ?b"
    from one have b1: "bcount ?b = 1" by (simp add: word_gt_1_iff)
    from one Cons.prems(1) obtain ok copy1 where
      rem: "remove_ibf hasher copy ?y = Inr (ok, copy1)"
      and asrt: "bcount (buckets copy1 ! i) = 0"
      and rest: "scan hasher is (copy1, insert ?y res, fin, ok) = Inr st'"
      by (auto simp: Let_def split: sum.splits if_splits)
    note p = remove_ibf_progress [OF ne rem]
    have ok: ok
    proof (rule ccontr)
      assume "\<not> ok"
      from p(2) [OF this] asrt b1 show False by simp
    qed
    from Cons.prems(3) obtain ks where
      c: "consistent hasher copy ks" and b: "within_capacity hasher copy ks" and f: "finite res"
      and u: "res \<union> set ks = set ks0" and n: "card res + length ks \<le> length ks0"
      by (auto simp: decoding_def)
    from rem ok have rem': "remove_ibf hasher copy ?y = Inr (True, copy1)" by simp
    note cr = consistent_remove [OF c b rem']
    have len: "length (remove1 ?y ks) = length ks - 1" using cr(1) by (simp add: length_remove1)
    have pos: "0 < length ks" using cr(1) by (cases ks) auto
    have "card (insert ?y res) \<le> Suc (card res)" using f by (simp add: card_insert_if)
    then have n1: "card (insert ?y res) + length (remove1 ?y ks) \<le> length ks0"
      using n len pos by linarith
    have u1: "insert ?y res \<union> set (remove1 ?y ks) = set ks0"
      using u insert_set_remove1 [OF cr(1)] by auto
    have d1: "decoding hasher ks0 (copy1, insert ?y res, fin, ok)"
      unfolding decoding_def using cr(2,3) f u1 n1 by auto
    have "\<forall>i \<in> set is. i < length (buckets copy1)" using Cons.prems(2) p(1) by simp
    from Cons.IH [OF rest this d1] show ?thesis .
  qed
qed

lemma scan_decoding:
  "decoding hasher ks0 (copy, res, fin0, hc0) \<Longrightarrow>
   scan hasher [0..<length (buckets copy)] (copy, res, fin, hc) = Inr st' \<Longrightarrow>
   decoding hasher ks0 st'"
  by (rule scan_decoding_aux [where fin = fin and hc = hc]) auto

lemma decoding_flags:
  "decoding hasher ks0 (copy, res, fin, hc) \<Longrightarrow> decoding hasher ks0 (copy, res, fin', hc')"
  by (simp add: decoding_def)

lemma peel_decoding_aux:
  fixes ks0 :: "'k::len word list" and st :: "('k, 'c::len) scan_state"
  shows "peel hasher st = Some r \<Longrightarrow>
   decoding hasher ks0 st \<longrightarrow> (\<forall>st'. r = Inr st' \<longrightarrow> decoding hasher ks0 st')"
proof (erule peel.raw_induct
    [where P = "\<lambda>hasher st r. decoding hasher ks0 st \<longrightarrow> (\<forall>st'. r = Inr st' \<longrightarrow> decoding hasher ks0 st')",
      rotated])
  fix f :: "'k HashFn \<Rightarrow> ('k, 'c) scan_state \<Rightarrow> (error + ('k, 'c) scan_state) option"
  fix hasher :: "'k HashFn" and st :: "('k, 'c) scan_state" and r
  assume IH: "\<And>hasher st r. f hasher st = Some r \<Longrightarrow>
     decoding hasher ks0 st \<longrightarrow> (\<forall>st'. r = Inr st' \<longrightarrow> decoding hasher ks0 st')"
  assume step: "(if \<not> fst (snd (snd st)) \<and> snd (snd (snd st))
      then (let r = scan hasher [0..<length (buckets (fst st))] (fst st, fst (snd st), True, False)
            in if isl r then Some r else f hasher (projr r))
      else Some (Inr st)) = Some r"
  show "decoding hasher ks0 st \<longrightarrow> (\<forall>st'. r = Inr st' \<longrightarrow> decoding hasher ks0 st')"
  proof (intro impI allI)
    fix st'
    assume d: "decoding hasher ks0 st" and r: "r = Inr st'"
    obtain copy res fin hc where st: "st = (copy, res, fin, hc)" by (cases st) auto
    show "decoding hasher ks0 st'"
    proof (cases "\<not> fin \<and> hc")
      case False
      with step st r d show ?thesis by auto
    next
      case True
      let ?r = "scan hasher [0..<length (buckets copy)] (copy, res, True, False)"
      show ?thesis
      proof (cases ?r)
        case (Inl e)
        with step st True r show ?thesis by (simp add: Let_def)
      next
        case (Inr st1)
        from scan_decoding [OF d [unfolded st] Inr] have d1: "decoding hasher ks0 st1" .
        from step st True Inr have "f hasher st1 = Some r" by (simp add: Let_def)
        from IH [OF this] d1 r show ?thesis by blast
      qed
    qed
  qed
qed

lemma peel_decoding:
  "peel hasher st = Some (Inr st') \<Longrightarrow> decoding hasher ks0 st \<Longrightarrow> decoding hasher ks0 st'"
  using peel_decoding_aux [of hasher st "Inr st'" ks0] by blast

lemma decoding_start:
  "consistent hasher s ks \<Longrightarrow> within_capacity hasher s ks \<Longrightarrow> decoding hasher ks (s, {}, fin, hc)"
  by (auto simp: decoding_def)

lemma of_nat_64_inj_small:
  "a < 2 ^ 64 \<Longrightarrow> b < 2 ^ 64 \<Longrightarrow> (of_nat a :: 64 word) = of_nat b \<Longrightarrow> a = b"
  by (simp add: word_of_nat_eq_iff take_bit_nat_eq_self)

text \<open>Decode correctness on consistent structures.\<close>

lemma consistent_listAll:
  fixes s :: "('k::len word, 'c::len word) InvertibleBloomFilter"
  assumes c: "consistent hasher s ks" and b: "within_capacity hasher s ks"
    and small: "length ks < 2 ^ 64"
    and l: "listAll_ibf hasher s = Some (Inr (s', Some res))"
  shows "res = set ks" and "card res = length ks" and "unat (size_ibf s) = length ks"
proof -
  from l obtain copy' fin hc where
    p: "peel hasher (s, {}, False, True) = Some (Inr (copy', res, fin, hc))"
    and eq: "of_nat (card res) = count s"
    by (auto simp: listAll_ibf_def split: option.splits sum.splits if_splits)
  from peel_decoding [OF p decoding_start [OF c b]] obtain ks' where
    u: "res \<union> set ks' = set ks" and n: "card res + length ks' \<le> length ks"
    by (auto simp: decoding_def)
  have cnt: "count s = of_nat (length ks)" using c by (simp add: consistent_def)
  have "card res < 2 ^ 64" using n small by simp
  with small show cl: "card res = length ks"
    using eq cnt by (intro of_nat_64_inj_small) simp_all
  with n have "ks' = []" by simp
  with u show "res = set ks" by simp
  show "unat (size_ibf s) = length ks"
    using small by (simp add: size_ibf_def cnt unat_of_nat)
qed

text \<open>A scan of a reachable structure leaves a reachable structure.\<close>

lemma scan_reachable:
  fixes copy :: "('k::len word, 'c::len word) InvertibleBloomFilter"
  assumes "scan hasher is (copy, res, fin, hc) = Inr (copy', res', fin', hc')"
    and "\<forall>i \<in> set is. i < length (buckets copy)"
    and "reachable hasher copy ks"
  shows "\<exists>ks'. reachable hasher copy' ks' \<and> length ks' \<le> length ks
           \<and> (hc' \<longrightarrow> hc \<or> length ks' < length ks)"
  using assms
proof (induction "is" arbitrary: copy res fin hc ks)
  case Nil
  then show ?case by auto
next
  case (Cons i "is")
  let ?b = "buckets copy ! i"
  have il: "i < length (buckets copy)" using Cons.prems(2) by simp
  then have ne: "buckets copy \<noteq> []" by auto
  consider (zero) "bcount ?b = 0" | (many) "bcount ?b \<noteq> 0" "1 < bcount ?b"
    | (one) "bcount ?b \<noteq> 0" "\<not> 1 < bcount ?b" by blast
  then show ?case
  proof cases
    case zero
    with Cons.prems(1) have "scan hasher is (copy, res, fin, hc) = Inr (copy', res', fin', hc')"
      by simp
    from Cons.IH [OF this _ Cons.prems(3)] Cons.prems(2) show ?thesis by simp
  next
    case many
    with Cons.prems(1) have "scan hasher is (copy, res, False, hc) = Inr (copy', res', fin', hc')"
      by simp
    from Cons.IH [OF this _ Cons.prems(3)] Cons.prems(2) show ?thesis by simp
  next
    case one
    let ?y = "cumulative_key ?b"
    from one have b1: "bcount ?b = 1" by (simp add: word_gt_1_iff)
    from one Cons.prems(1) obtain ok copy1 where
      rem: "remove_ibf hasher copy ?y = Inr (ok, copy1)"
      and asrt: "bcount (buckets copy1 ! i) = 0"
      and rest: "scan hasher is (copy1, insert ?y res, fin, ok) = Inr (copy', res', fin', hc')"
      by (auto simp: Let_def split: sum.splits if_splits)
    note p = remove_ibf_progress [OF ne rem]
    have ok: ok
    proof (rule ccontr)
      assume "\<not> ok"
      from p(2) [OF this] asrt b1 show False by simp
    qed
    from rem ok have rem': "remove_ibf hasher copy ?y = Inr (True, copy1)" by simp
    from reachable_consistent [OF Cons.prems(3)]
    have c: "consistent hasher copy ks" and b: "within_capacity hasher copy ks" by simp_all
    from consistent_remove(1) [OF c b rem'] have y: "?y \<in> set ks" .
    then have pos: "0 < length ks" by (cases ks) auto
    have len: "length (remove1 ?y ks) = length ks - 1" using y by (simp add: length_remove1)
    have r1: "reachable hasher copy1 (remove1 ?y ks)"
      by (rule reachable_remove [OF Cons.prems(3) rem'])
    have "\<forall>i \<in> set is. i < length (buckets copy1)" using Cons.prems(2) p(1) by simp
    from Cons.IH [OF rest this r1] obtain ks' where
      r': "reachable hasher copy' ks'" and le: "length ks' \<le> length (remove1 ?y ks)" by blast
    from le len pos have "length ks' < length ks" by linarith
    with r' show ?thesis by (intro exI [of _ ks']) simp
  qed
qed

lemma reachable_count:
  "reachable hasher s ks \<Longrightarrow> length ks < 2 ^ 64 \<Longrightarrow> unat (count s) = length ks"
  using reachable_consistent [of hasher s ks] by (simp add: consistent_def unat_of_nat)

section \<open>Many insertions into one bucket\<close>

lemma insert_all_consistent:
  fixes s :: "('k::len word, 'c::len word) InvertibleBloomFilter"
  shows "consistent hasher s ks \<Longrightarrow>
   \<exists>s'. insert_all hasher s keys = Inr s' \<and> consistent hasher s' (rev keys @ ks)
        \<and> length (buckets s') = length (buckets s) \<and> seeds s' = seeds s"
proof (induction keys arbitrary: s ks)
  case Nil
  then show ?case by simp
next
  case (Cons key keys)
  have ne: "buckets s \<noteq> []" using Cons.prems by (simp add: consistent_def)
  let ?s1 = "s\<lparr>buckets := apply_at (probes hasher (length (buckets s)) (seeds s) key)
                           (add_key key) (buckets s),
            count := count s + 1\<rparr>"
  have i: "insert_ibf hasher s key = Inr ?s1" by (rule insert_ibf_char [OF ne])
  from consistent_insert [OF Cons.prems i] have "consistent hasher ?s1 (key # ks)" .
  from Cons.IH [OF this] i show ?case by auto
qed

text \<open>In a directory of one bucket every key is routed to that bucket.\<close>

lemma routed_single: "sds \<noteq> [] \<Longrightarrow> routed hasher (Suc 0) sds 0 ks = ks"
proof -
  assume "sds \<noteq> []"
  then obtain sd where "sd \<in> set sds" by (cases sds) auto
  then have "0 \<in> probes hasher (Suc 0) sds k" for k
    by (auto simp: probes_def slot_def intro!: image_eqI [of _ _ sd])
  then show ?thesis by (simp add: routed_def)
qed

lemma single_bucket_after_inserts:
  assumes "insert_all hasher example_single keys = Inr s'"
  shows "buckets s' = [\<lparr>cumulative_key = xor_list (rev keys), bcount = of_nat (length keys)\<rparr>]"
    and "seeds s' = [0, 1, 2]"
proof -
  have "consistent hasher example_single []"
    by (rule consistent_fresh [of 1]) (simp_all add: fresh_def example_single_def)
  from insert_all_consistent [OF this, of keys] assms
  have c: "consistent hasher s' (rev keys)" and l: "length (buckets s') = 1"
    and sd: "seeds s' = [0, 1, 2]"
    by (auto simp: example_single_def)
  show "seeds s' = [0, 1, 2]" by (rule sd)
  from c l have "buckets s' ! 0 = \<lparr>cumulative_key = xor_list (rev keys), bcount = of_nat (length keys)\<rparr>"
    by (simp add: consistent_def sd routed_single)
  with l show "buckets s' = [\<lparr>cumulative_key = xor_list (rev keys), bcount = of_nat (length keys)\<rparr>]"
    by (cases "buckets s'") auto
qed

lemma insert_all_example_single_total:
  "\<exists>s'. insert_all hasher example_single keys = Inr s'"
proof -
  have "consistent hasher example_single []"
    by (rule consistent_fresh [of 1]) (simp_all add: fresh_def example_single_def)
  from insert_all_consistent [OF this, of keys] show ?thesis by blast
qed


lemma fresh_below_max:
  fixes s :: "('k::len word, 'c::len word) InvertibleBloomFilter"
  assumes "0 < n" "fresh n s"
  shows "\<forall>i \<in> probes hasher (length (buckets s)) (seeds s) key. bcount (buckets s ! i) \<noteq> - 1"
proof
  fix i assume "i \<in> probes hasher (length (buckets s)) (seeds s) key"
  moreover have "length (buckets s) = n" using assms(2) by (simp add: fresh_def)
  ultimately have "i < n" using assms(1) by (auto intro: probes_less)
  then show "bcount (buckets s ! i) \<noteq> - 1" using assms(2) by (simp add: fresh_def)
qed

lemma example_one_reachable: "reachable Murmur3Finalizer example_one [1337]"
proof (rule reachable_insert [OF reachable_fresh [of 10 example_fresh] _ example_one_insert])
  show "0 < (10::nat)" by simp
  show f: "fresh 10 example_fresh" by (simp add: fresh_def example_fresh_def)
  show "\<forall>i \<in> probes Murmur3Finalizer (length (buckets example_fresh)) (seeds example_fresh) 1337.
          bcount (buckets example_fresh ! i) \<noteq> - 1"
    by (rule fresh_below_max [OF _ f]) simp
qed

lemma example_two_reachable: "reachable Murmur3Finalizer example_two [86, 1337]"
proof (rule reachable_insert [OF example_one_reachable _ example_two_insert])
  show "\<forall>i \<in> probes Murmur3Finalizer (length (buckets example_one)) (seeds example_one) 86.
          bcount (buckets example_one ! i) \<noteq> - 1"
    by (simp add: probes_def slot_def example_one_def m86)
qed

section \<open>Dictionaries and the pairs they hold\<close>

lemma xor_list_map_remove1:
  "x \<in> set xs \<Longrightarrow> xor_list (map f (remove1 x xs)) = xor_list (map f xs) XOR f x"
proof (induction xs)
  case Nil
  then show ?case by simp
next
  case (Cons a xs)
  show ?case
  proof (cases "a = x")
    case True
    then show ?thesis by (simp add: xor.commute xor.left_commute)
  next
    case False
    with Cons show ?thesis by (simp add: xor.assoc)
  qed
qed

lemma routed_d_Cons:
  "routed_d hasher n sds i (kv # kvs) =
     (if i \<in> probes hasher n sds (fst kv) then kv # routed_d hasher n sds i kvs
      else routed_d hasher n sds i kvs)"
  by (simp add: routed_d_def)

lemma routed_d_remove1:
  "routed_d hasher n sds i (remove1 kv kvs) =
     (if i \<in> probes hasher n sds (fst kv) then remove1 kv (routed_d hasher n sds i kvs)
      else routed_d hasher n sds i kvs)"
  by (simp add: routed_d_def filter_remove1)

lemma routed_d_Nil [simp]: "routed_d hasher n sds i [] = []"
  by (simp add: routed_d_def)

lemma set_routed_d:
  "set (routed_d hasher n sds i kvs) = {kv \<in> set kvs. i \<in> probes hasher n sds (fst kv)}"
  by (simp add: routed_d_def)

lemma length_routed_d_le: "length (routed_d hasher n sds i kvs) \<le> length kvs"
  by (simp add: routed_d_def)

lemma consistent_d_fresh: "0 < n \<Longrightarrow> fresh_d n s \<Longrightarrow> consistent_d hasher s []"
  by (auto simp: consistent_d_def fresh_d_def)

lemma consistent_d_insert:
  assumes c: "consistent_d hasher s kvs" and i: "insert_ibd hasher s key val = Inr s'"
  shows "consistent_d hasher s' ((key, val) # kvs)"
proof -
  have ne: "buckets_d s \<noteq> []" using c by (simp add: consistent_d_def)
  let ?n = "length (buckets_d s)"
  have s': "s' = s\<lparr>buckets_d := apply_at (probes hasher ?n (seeds_d s) key) (add_kv key val)
                                    (buckets_d s),
                    count_d := count_d s + 1\<rparr>"
    using i insert_ibd_char [OF ne, of hasher key val] by simp
  show ?thesis
    using c unfolding consistent_d_def s'
    by (auto simp: routed_d_Cons add_kv_def xor.commute)
qed

lemma consistent_d_singleton:
  fixes s :: "('k::len word, 'v::len word, 'c::len word) InvertibleBloomDictionary"
  assumes c: "consistent_d hasher s kvs" and b: "within_capacity_d hasher s kvs"
    and i: "i < length (buckets_d s)" and one: "bcount_d (buckets_d s ! i) = 1"
  shows "routed_d hasher (length (buckets_d s)) (seeds_d s) i kvs
           = [(cumulative_key_d (buckets_d s ! i), cumulative_value (buckets_d s ! i))]"
proof -
  let ?r = "routed_d hasher (length (buckets_d s)) (seeds_d s) i kvs"
  have bi: "buckets_d s ! i = \<lparr>cumulative_key_d = xor_list (map fst ?r),
              cumulative_value = xor_list (map snd ?r), bcount_d = of_nat (length ?r)\<rparr>"
    using c i by (simp add: consistent_d_def)
  have "length ?r < 2 ^ LENGTH('c)"
    using b i by (simp add: within_capacity_d_def)
  moreover have "(of_nat (length ?r) :: 'c word) = 1" using one bi by simp
  ultimately have "length ?r = 1" by (rule of_nat_eq_1_small)
  then obtain y where y: "?r = [y]" by (cases ?r) auto
  then show ?thesis using bi by (cases y) simp
qed

lemma consistent_d_present_nonzero:
  fixes s :: "('k::len word, 'v::len word, 'c::len word) InvertibleBloomDictionary"
  assumes c: "consistent_d hasher s kvs" and b: "within_capacity_d hasher s kvs"
    and i: "i \<in> probes hasher (length (buckets_d s)) (seeds_d s) key" and k: "(key, val) \<in> set kvs"
  shows "bcount_d (buckets_d s ! i) \<noteq> 0"
proof -
  let ?r = "routed_d hasher (length (buckets_d s)) (seeds_d s) i kvs"
  have ne: "buckets_d s \<noteq> []" using c by (simp add: consistent_d_def)
  have il: "i < length (buckets_d s)" using i ne by (auto intro: probes_less)
  have kr: "(key, val) \<in> set ?r" using i k by (simp add: set_routed_d)
  have bi: "bcount_d (buckets_d s ! i) = of_nat (length ?r)"
    using c il by (simp add: consistent_d_def)
  have "length ?r < 2 ^ LENGTH('c)"
    using b il by (simp add: within_capacity_d_def)
  moreover have "length ?r \<noteq> 0" using kr by auto
  ultimately have "(of_nat (length ?r) :: 'c word) \<noteq> 0" using of_nat_eq_0_small by blast
  then show "bcount_d (buckets_d s ! i) \<noteq> 0" using bi by simp
qed

text \<open>In a consistent dictionary \<^verbatim>\<open>get\<close> returns the value of the one pair with that key.\<close>

lemma consistent_d_get:
  fixes s :: "('k::len word, 'v::len word, 'c::len word) InvertibleBloomDictionary"
  assumes c: "consistent_d hasher s kvs" and b: "within_capacity_d hasher s kvs"
    and g: "get_ibd hasher s key = Inr (Some val)"
  shows "(key, val) \<in> set kvs" and "(key, v) \<in> set kvs \<Longrightarrow> v = val"
proof -
  let ?n = "length (buckets_d s)"
  let ?Q = "\<lambda>sd. bcount_d (buckets_d s ! slot hasher ?n key sd) = 1"
  have ne: "buckets_d s \<noteq> []" using c by (simp add: consistent_d_def)
  from g obtain sd where f: "find ?Q (seeds_d s) = Some sd"
    by (cases "find ?Q (seeds_d s)") (auto simp: get_ibd_char [OF ne])
  then have q: "?Q sd" and sin: "sd \<in> set (seeds_d s)" by (auto simp: find_Some_iff)
  let ?i = "slot hasher ?n key sd"
  have iP: "?i \<in> probes hasher ?n (seeds_d s) key" using sin by (rule slot_in_probes)
  have il: "?i < ?n" using ne by (simp add: slot_less)
  from g f have kv: "key = cumulative_key_d (buckets_d s ! ?i)"
    "val = cumulative_value (buckets_d s ! ?i)"
    by (auto simp: get_ibd_char [OF ne] split: if_splits)
  from consistent_d_singleton [OF c b il q] kv
  have r: "routed_d hasher ?n (seeds_d s) ?i kvs = [(key, val)]" by simp
  then have "(key, val) \<in> set (routed_d hasher ?n (seeds_d s) ?i kvs)" by simp
  then show "(key, val) \<in> set kvs" by (simp add: set_routed_d)
  show "v = val" if "(key, v) \<in> set kvs"
  proof -
    from that iP have "(key, v) \<in> set (routed_d hasher ?n (seeds_d s) ?i kvs)"
      by (simp add: set_routed_d)
    with r show ?thesis by simp
  qed
qed

lemma consistent_d_remove:
  fixes s :: "('k::len word, 'v::len word, 'c::len word) InvertibleBloomDictionary"
  assumes c: "consistent_d hasher s kvs" and b: "within_capacity_d hasher s kvs"
    and g: "get_ibd hasher s key = Inr (Some val)"
    and r: "remove_ibd hasher s key = Inr (True, s')"
  shows "consistent_d hasher s' (remove1 (key, val) kvs)"
    and "within_capacity_d hasher s' (remove1 (key, val) kvs)"
proof -
  let ?n = "length (buckets_d s)"
  let ?P = "probes hasher ?n (seeds_d s) key"
  have ne: "buckets_d s \<noteq> []" using c by (simp add: consistent_d_def)
  from r g have
    s': "s' = s\<lparr>buckets_d := apply_at ?P (sub_kv key val) (buckets_d s), count_d := count_d s - 1\<rparr>"
    by (auto simp: remove_ibd_char [OF ne] split: if_splits)
  have k: "(key, val) \<in> set kvs" by (rule consistent_d_get(1) [OF c b g])
  have pos: "0 < length kvs" using k by (cases kvs) auto
  have cnt: "count_d s' = of_nat (length (remove1 (key, val) kvs))"
    using c k pos by (simp add: s' consistent_d_def length_remove1 of_nat_diff_1)
  have bk: "buckets_d s' ! i =
          \<lparr>cumulative_key_d = xor_list (map fst (routed_d hasher ?n (seeds_d s) i (remove1 (key, val) kvs))),
           cumulative_value = xor_list (map snd (routed_d hasher ?n (seeds_d s) i (remove1 (key, val) kvs))),
           bcount_d = of_nat (length (routed_d hasher ?n (seeds_d s) i (remove1 (key, val) kvs)))\<rparr>"
    if il: "i < ?n" for i
  proof (cases "i \<in> ?P")
    case False
    then show ?thesis using c il by (simp add: s' consistent_d_def routed_d_remove1)
  next
    case True
    let ?r = "routed_d hasher ?n (seeds_d s) i kvs"
    have kr: "(key, val) \<in> set ?r" using True k by (simp add: set_routed_d)
    then have rpos: "0 < length ?r" by (cases ?r) auto
    have bi: "buckets_d s ! i = \<lparr>cumulative_key_d = xor_list (map fst ?r),
                cumulative_value = xor_list (map snd ?r), bcount_d = of_nat (length ?r)\<rparr>"
      using c il by (simp add: consistent_d_def)
    show ?thesis
      using True il kr rpos
      by (simp add: s' bi sub_kv_def routed_d_remove1 xor_list_map_remove1 length_remove1
            of_nat_diff_1)
  qed
  show "consistent_d hasher s' (remove1 (key, val) kvs)"
    unfolding consistent_d_def using ne cnt bk by (simp add: s')
  have "length (routed_d hasher ?n (seeds_d s) i (remove1 (key, val) kvs))
          \<le> length (routed_d hasher ?n (seeds_d s) i kvs)" for i
    by (simp add: routed_d_remove1 length_remove1)
  then show "within_capacity_d hasher s' (remove1 (key, val) kvs)"
    using b unfolding within_capacity_d_def s' by (auto intro: le_less_trans)
qed

lemma within_capacity_d_fresh: "fresh_d n s \<Longrightarrow> within_capacity_d hasher s []"
  by (simp add: within_capacity_d_def)

lemma within_capacity_d_insert:
  fixes s :: "('k::len word, 'v::len word, 'c::len word) InvertibleBloomDictionary"
  assumes c: "consistent_d hasher s kvs" and b: "within_capacity_d hasher s kvs"
    and g: "\<forall>i \<in> probes hasher (length (buckets_d s)) (seeds_d s) key.
              bcount_d (buckets_d s ! i) \<noteq> - 1"
    and i: "insert_ibd hasher s key val = Inr s'"
  shows "within_capacity_d hasher s' ((key, val) # kvs)"
proof -
  have ne: "buckets_d s \<noteq> []" using c by (simp add: consistent_d_def)
  let ?n = "length (buckets_d s)"
  have s': "s' = s\<lparr>buckets_d := apply_at (probes hasher ?n (seeds_d s) key) (add_kv key val)
                                    (buckets_d s),
                    count_d := count_d s + 1\<rparr>"
    using i insert_ibd_char [OF ne, of hasher key val] by simp
  have "length (routed_d hasher ?n (seeds_d s) j ((key, val) # kvs)) < 2 ^ LENGTH('c)"
    if j: "j < ?n" for j
  proof (cases "j \<in> probes hasher ?n (seeds_d s) key")
    case False
    then show ?thesis using b j by (simp add: routed_d_Cons within_capacity_d_def)
  next
    case True
    let ?r = "routed_d hasher ?n (seeds_d s) j kvs"
    have "length ?r < 2 ^ LENGTH('c)" using b j by (simp add: within_capacity_d_def)
    moreover have "(of_nat (length ?r) :: 'c word) \<noteq> - 1"
    proof -
      from c j have "bcount_d (buckets_d s ! j) = of_nat (length ?r)"
        by (simp add: consistent_d_def)
      moreover from g True have "bcount_d (buckets_d s ! j) \<noteq> - 1" by blast
      ultimately show ?thesis by simp
    qed
    ultimately have "Suc (length ?r) < 2 ^ LENGTH('c)" by (rule of_nat_max_small)
    with True show ?thesis by (simp add: routed_d_Cons)
  qed
  then show ?thesis by (simp add: within_capacity_d_def s')
qed

lemma reachable_d_consistent:
  fixes s :: "('k::len word, 'v::len word, 'c::len word) InvertibleBloomDictionary"
  shows "reachable_d hasher s kvs \<Longrightarrow> consistent_d hasher s kvs \<and> within_capacity_d hasher s kvs"
proof (induction rule: reachable_d.induct)
  case (reachable_d_fresh n s)
  then show ?case by (simp add: consistent_d_fresh within_capacity_d_fresh)
next
  case (reachable_d_insert s kvs key val s')
  then show ?case
    by (auto intro: consistent_d_insert within_capacity_d_insert)
next
  case (reachable_d_remove s kvs key val s')
  then show ?case
    using consistent_d_remove [of hasher s kvs key val s'] by auto
qed


lemma set_remove1_insert: "y \<in> set ks \<Longrightarrow> insert y (set (remove1 y ks)) = set ks"
  by (induction ks) auto

lemma scan_d_decoding_aux:
  fixes copy :: "('k::len word, 'v::len word, 'c::len word) InvertibleBloomDictionary"
  assumes "scan_d hasher is (copy, res, fin, hc) = Inr st'"
    and "\<forall>i \<in> set is. i < length (buckets_d copy)"
    and "decoding_d hasher kvs0 (copy, res, fin0, hc0)"
  shows "decoding_d hasher kvs0 st'"
  using assms
proof (induction "is" arbitrary: copy res fin hc fin0 hc0)
  case Nil
  then show ?case by (auto simp: decoding_d_def)
next
  case (Cons i "is")
  let ?b = "buckets_d copy ! i"
  have il: "i < length (buckets_d copy)" using Cons.prems(2) by simp
  then have ne: "buckets_d copy \<noteq> []" by auto
  consider (zero) "bcount_d ?b = 0" | (many) "bcount_d ?b \<noteq> 0" "1 < bcount_d ?b"
    | (one) "bcount_d ?b \<noteq> 0" "\<not> 1 < bcount_d ?b" by blast
  then show ?case
  proof cases
    case zero
    with Cons.prems(1) have "scan_d hasher is (copy, res, fin, hc) = Inr st'" by simp
    from Cons.IH [OF this _ Cons.prems(3)] Cons.prems(2) show ?thesis by simp
  next
    case many
    with Cons.prems(1) have "scan_d hasher is (copy, res, False, hc) = Inr st'" by simp
    from Cons.IH [OF this _ Cons.prems(3)] Cons.prems(2) show ?thesis by simp
  next
    case one
    let ?y = "cumulative_key_d ?b"
    let ?v = "cumulative_value ?b"
    from one have b1: "bcount_d ?b = 1" by (simp add: word_gt_1_iff)
    from one Cons.prems(1) obtain ok copy1 where
      rem: "remove_ibd hasher copy ?y = Inr (ok, copy1)"
      and asrt: "bcount_d (buckets_d copy1 ! i) = 0"
      and rest: "scan_d hasher is (copy1, res @ [(?y, ?v)], fin, ok) = Inr st'"
      by (auto simp: Let_def split: sum.splits if_splits)
    note p = remove_ibd_progress [OF ne rem]
    have ok: ok
    proof (rule ccontr)
      assume "\<not> ok"
      from p(2) [OF this] asrt b1 show False by simp
    qed
    from Cons.prems(3) obtain kvs where
      c: "consistent_d hasher copy kvs" and b: "within_capacity_d hasher copy kvs"
      and u: "mset res + mset kvs = mset kvs0"
      by (auto simp: decoding_d_def)
    from rem ok have rem': "remove_ibd hasher copy ?y = Inr (True, copy1)" by simp
    then obtain val where g: "get_ibd hasher copy ?y = Inr (Some val)"
      by (auto simp: remove_ibd_def split: sum.splits option.splits)
    from consistent_d_singleton [OF c b il b1]
    have "(?y, ?v) \<in> set (routed_d hasher (length (buckets_d copy)) (seeds_d copy) i kvs)" by simp
    then have yv: "(?y, ?v) \<in> set kvs" by (simp add: set_routed_d)
    from consistent_d_get(2) [OF c b g yv] have v: "?v = val" .
    note cr = consistent_d_remove [OF c b g rem']
    have len: "length (remove1 (?y, ?v) kvs) \<le> length kvs" by (simp add: length_remove1)
    have "mset (res @ [(?y, ?v)]) + mset (remove1 (?y, ?v) kvs)
            = mset res + add_mset (?y, ?v) (mset kvs - {#(?y, ?v)#})"
      by simp
    also have "add_mset (?y, ?v) (mset kvs - {#(?y, ?v)#}) = mset kvs"
      using yv by (simp add: insert_DiffM)
    finally have u1: "mset (res @ [(?y, ?v)]) + mset (remove1 (?y, ?v) kvs) = mset kvs0"
      using u by simp
    have d1: "decoding_d hasher kvs0 (copy1, res @ [(?y, ?v)], fin, ok)"
      unfolding decoding_d_def using cr u1 v by auto
    have "\<forall>i \<in> set is. i < length (buckets_d copy1)" using Cons.prems(2) p(1) by simp
    from Cons.IH [OF rest this d1] show ?thesis .
  qed
qed

lemma scan_d_decoding:
  "decoding_d hasher kvs0 (copy, res, fin0, hc0) \<Longrightarrow>
   scan_d hasher [0..<length (buckets_d copy)] (copy, res, fin, hc) = Inr st' \<Longrightarrow>
   decoding_d hasher kvs0 st'"
  by (rule scan_d_decoding_aux [where fin = fin and hc = hc]) auto

lemma peel_d_decoding_aux:
  fixes kvs0 :: "('k::len word \<times> 'v::len word) list" and st :: "('k, 'v, 'c::len) scan_state_d"
  shows "peel_d hasher st = Some r \<Longrightarrow>
   decoding_d hasher kvs0 st \<longrightarrow> (\<forall>st'. r = Inr st' \<longrightarrow> decoding_d hasher kvs0 st')"
proof (erule peel_d.raw_induct
    [where P = "\<lambda>hasher st r. decoding_d hasher kvs0 st \<longrightarrow> (\<forall>st'. r = Inr st' \<longrightarrow> decoding_d hasher kvs0 st')",
      rotated])
  fix f :: "'k HashFn \<Rightarrow> ('k, 'v, 'c) scan_state_d \<Rightarrow> (error + ('k, 'v, 'c) scan_state_d) option"
  fix hasher :: "'k HashFn" and st :: "('k, 'v, 'c) scan_state_d" and r
  assume IH: "\<And>hasher st r. f hasher st = Some r \<Longrightarrow>
     decoding_d hasher kvs0 st \<longrightarrow> (\<forall>st'. r = Inr st' \<longrightarrow> decoding_d hasher kvs0 st')"
  assume step: "(if \<not> fst (snd (snd st)) \<and> snd (snd (snd st))
      then (let r = scan_d hasher [0..<length (buckets_d (fst st))]
                      (fst st, fst (snd st), True, False)
            in if isl r then Some r else f hasher (projr r))
      else Some (Inr st)) = Some r"
  show "decoding_d hasher kvs0 st \<longrightarrow> (\<forall>st'. r = Inr st' \<longrightarrow> decoding_d hasher kvs0 st')"
  proof (intro impI allI)
    fix st'
    assume d: "decoding_d hasher kvs0 st" and r: "r = Inr st'"
    obtain copy res fin hc where st: "st = (copy, res, fin, hc)" by (cases st) auto
    show "decoding_d hasher kvs0 st'"
    proof (cases "\<not> fin \<and> hc")
      case False
      with step st r d show ?thesis by auto
    next
      case True
      let ?r = "scan_d hasher [0..<length (buckets_d copy)] (copy, res, True, False)"
      show ?thesis
      proof (cases ?r)
        case (Inl e)
        with step st True r show ?thesis by (simp add: Let_def)
      next
        case (Inr st1)
        from scan_d_decoding [OF d [unfolded st] Inr] have d1: "decoding_d hasher kvs0 st1" .
        from step st True Inr have "f hasher st1 = Some r" by (simp add: Let_def)
        from IH [OF this] d1 r show ?thesis by blast
      qed
    qed
  qed
qed

lemma peel_d_decoding:
  "peel_d hasher st = Some (Inr st') \<Longrightarrow> decoding_d hasher kvs0 st \<Longrightarrow> decoding_d hasher kvs0 st'"
  using peel_d_decoding_aux [of hasher st "Inr st'" kvs0] by blast

lemma decoding_d_start:
  "consistent_d hasher s kvs \<Longrightarrow> within_capacity_d hasher s kvs \<Longrightarrow>
   decoding_d hasher kvs (s, [], fin, hc)"
  by (auto simp: decoding_d_def)

lemma consistent_d_listAll:
  fixes s :: "('k::len word, 'v::len word, 'c::len word) InvertibleBloomDictionary"
  assumes c: "consistent_d hasher s kvs" and b: "within_capacity_d hasher s kvs"
    and small: "length kvs < 2 ^ 64"
    and l: "listAll_ibd hasher s = Some (Inr (s', Some res))"
  shows "mset res = mset kvs" and "length res = length kvs" and "unat (size_ibd s) = length kvs"
proof -
  from l obtain copy' fin hc where
    p: "peel_d hasher (s, [], False, True) = Some (Inr (copy', res, fin, hc))"
    and eq: "of_nat (length res) = count_d s"
    by (auto simp: listAll_ibd_def split: option.splits sum.splits if_splits)
  from peel_d_decoding [OF p decoding_d_start [OF c b]] obtain kvs' where
    u: "mset res + mset kvs' = mset kvs"
    by (auto simp: decoding_d_def)
  from arg_cong [OF u, of size] have n: "length res + length kvs' = length kvs" by simp
  have cnt: "count_d s = of_nat (length kvs)" using c by (simp add: consistent_d_def)
  have "length res < 2 ^ 64" using n small by simp
  with small show cl: "length res = length kvs"
    using eq cnt by (intro of_nat_64_inj_small) simp_all
  with n have "kvs' = []" by simp
  with u show "mset res = mset kvs" by simp
  show "unat (size_ibd s) = length kvs"
    using small by (simp add: size_ibd_def cnt unat_of_nat)
qed

lemma fresh_d_below_max:
  fixes s :: "('k::len word, 'v::len word, 'c::len word) InvertibleBloomDictionary"
  assumes "0 < n" "fresh_d n s"
  shows "\<forall>i \<in> probes hasher (length (buckets_d s)) (seeds_d s) key.
           bcount_d (buckets_d s ! i) \<noteq> - 1"
proof
  fix i assume "i \<in> probes hasher (length (buckets_d s)) (seeds_d s) key"
  moreover have "length (buckets_d s) = n" using assms(2) by (simp add: fresh_d_def)
  ultimately have "i < n" using assms(1) by (auto intro: probes_less)
  then show "bcount_d (buckets_d s ! i) \<noteq> - 1" using assms(2) by (simp add: fresh_d_def)
qed

lemma example_one_d_reachable: "reachable_d Murmur3Finalizer example_one_d [(1337, 42)]"
proof (rule reachable_d_insert [OF reachable_d_fresh [of 10 example_fresh_d] _ example_one_d_insert])
  show "0 < (10::nat)" by simp
  show f: "fresh_d 10 example_fresh_d" by (simp add: fresh_d_def example_fresh_d_def)
  show "\<forall>i \<in> probes Murmur3Finalizer (length (buckets_d example_fresh_d)) (seeds_d example_fresh_d) 1337.
          bcount_d (buckets_d example_fresh_d ! i) \<noteq> - 1"
    by (rule fresh_d_below_max [OF _ f]) simp
qed

lemma example_two_d_reachable:
  "reachable_d Murmur3Finalizer example_two_d [(86, 89), (1337, 42)]"
proof (rule reachable_d_insert [OF example_one_d_reachable _ example_two_d_insert])
  show "\<forall>i \<in> probes Murmur3Finalizer (length (buckets_d example_one_d)) (seeds_d example_one_d) 86.
          bcount_d (buckets_d example_one_d ! i) \<noteq> - 1"
    by (simp add: probes_def slot_def example_one_d_def m86)
qed

section \<open>Decoding after a counter has wrapped around\<close>

lemma bit_small: "a < 2 ^ n \<Longrightarrow> bit (a::nat) k \<Longrightarrow> k < n"
  by (metis bit_take_bit_iff take_bit_nat_eq_self)

lemma add_push: "a < 2 ^ n \<Longrightarrow> (a::nat) + push_bit n b = a OR push_bit n b"
  by (rule disjunctive_add) (auto simp add: bit_simps dest: bit_small)

lemma xor_small: "a < 2 ^ n \<Longrightarrow> c < 2 ^ n \<Longrightarrow> (a::nat) XOR c < 2 ^ n"
  by (metis take_bit_xor take_bit_nat_eq_self take_bit_nat_less_exp)

lemma xor_high:
  assumes "a < 2 ^ n"
  shows "((a::nat) + push_bit n b) XOR push_bit n c = a + push_bit n (b XOR c)"
proof -
  have "(a OR push_bit n b) XOR push_bit n c = a OR push_bit n (b XOR c)"
    using assms by (intro bit_eqI) (auto simp add: bit_simps dest: bit_small)
  then show ?thesis using assms by (simp only: add_push)
qed

lemma xor_low:
  assumes "a < 2 ^ n" "c < 2 ^ n"
  shows "((a::nat) + push_bit n b) XOR c = (a XOR c) + push_bit n b"
proof -
  have "(a OR push_bit n b) XOR c = (a XOR c) OR push_bit n b"
    using assms by (intro bit_eqI) (auto simp add: bit_simps dest: bit_small)
  then show ?thesis using assms xor_small [OF assms] by (simp only: add_push)
qed

lemma xor_mask:
  assumes "a < 2 ^ n"
  shows "(a::nat) XOR mask n = mask n - a"
proof -
  have "(a XOR mask n) AND a = 0"
    by (intro bit_eqI) (auto simp add: bit_simps dest: bit_small [OF assms])
  then have "(a XOR mask n) + a = (a XOR mask n) OR a"
    by (rule disjunctive_add_eq_or)
  also have "\<dots> = mask n"
    by (intro bit_eqI) (auto simp add: bit_simps dest: bit_small [OF assms])
  finally show ?thesis by simp
qed

lemma chain_code_mod: "chain_code lo a b mod 1023 = (lo + a + b) mod 1023"
proof -
  have "chain_code lo a b = (lo + a + b) + 1023 * (a + b * 1025)" by (simp add: chain_code_def)
  then show ?thesis by (metis mod_mult_self2)
qed

lemma chain_code_push: "chain_code lo a b = lo + push_bit 10 (a + push_bit 10 b)"
  by (simp add: chain_code_def push_bit_eq_mult)

lemma mask_10: "(1023::nat) = mask 10"
  by (simp add: mask_eq_exp_minus_1)

lemma chain_code_xor2:
  assumes "lo < 1024" "a < 1024"
  shows "chain_code lo a b XOR 1047552 = chain_code lo (1023 - a) b"
proof -
  have "(1047552::nat) = push_bit 10 1023" by (simp add: push_bit_eq_mult)
  moreover have "lo < 2 ^ 10" "a < 2 ^ 10" "(1023::nat) < 2 ^ 10" using assms by simp_all
  ultimately show ?thesis
    by (simp only: chain_code_push xor_high xor_low) (simp only: mask_10 xor_mask)
qed

lemma chain_code_xor3:
  assumes "lo < 1024" "a < 1024" "b < 1024"
  shows "chain_code lo a b XOR 1072693248 = chain_code lo a (1023 - b)"
proof -
  have "(1072693248::nat) = push_bit 10 (push_bit 10 1023)" by (simp add: push_bit_eq_mult)
  moreover have "lo < 2 ^ 10" "a < 2 ^ 10" "b < 2 ^ 10" using assms by simp_all
  ultimately show ?thesis
    by (simp only: chain_code_push xor_high) (simp only: mask_10 xor_mask)
qed

lemma chain_code_less: "lo < 1024 \<Longrightarrow> a < 1024 \<Longrightarrow> b < 1024 \<Longrightarrow> chain_code lo a b < 2 ^ 64"
  by (simp add: chain_code_def)

lemma chain_field_code: "chain_field lo a b = of_nat (chain_code lo a b)"
  by (simp add: chain_field_def)

lemma unat_chain_code:
  "lo < 1024 \<Longrightarrow> a < 1024 \<Longrightarrow> b < 1024 \<Longrightarrow> unat (of_nat (chain_code lo a b) :: 64 word) = chain_code lo a b"
  using chain_code_less [of lo a b] by (simp only: unat_of_nat) simp

lemma chain_field_slots:
  assumes "lo < 1024" "a < 1024" "b < 1024" and h: "chain_hasher key = chain_field lo a b"
  shows "slot chain_hasher 1023 key 0 = (lo + a + b) mod 1023"
    and "slot chain_hasher 1023 key 1047552 = (lo + (1023 - a) + b) mod 1023"
    and "slot chain_hasher 1023 key 1072693248 = (lo + a + (1023 - b)) mod 1023"
proof -
  show "slot chain_hasher 1023 key 0 = (lo + a + b) mod 1023"
    using unat_chain_code [OF assms(1-3)] by (simp add: slot_def h chain_field_code chain_code_mod)
  have "(1047552 :: 64 word) = of_nat 1047552" by simp
  then have "chain_hasher key XOR 1047552 = of_nat (chain_code lo (1023 - a) b)"
    using chain_code_xor2 [OF assms(1,2), of b] by (simp only: h chain_field_code flip: of_nat_xor_eq)
  moreover have "unat (of_nat (chain_code lo (1023 - a) b) :: 64 word) = chain_code lo (1023 - a) b"
    using assms by (intro unat_chain_code) simp_all
  ultimately show "slot chain_hasher 1023 key 1047552 = (lo + (1023 - a) + b) mod 1023"
    by (simp add: slot_def chain_code_mod)
  have "(1072693248 :: 64 word) = of_nat 1072693248" by simp
  then have "chain_hasher key XOR 1072693248 = of_nat (chain_code lo a (1023 - b))"
    using chain_code_xor3 [OF assms(1-3)] by (simp only: h chain_field_code flip: of_nat_xor_eq)
  moreover have "unat (of_nat (chain_code lo a (1023 - b)) :: 64 word) = chain_code lo a (1023 - b)"
    using assms by (intro unat_chain_code) simp_all
  ultimately show "slot chain_hasher 1023 key 1072693248 = (lo + a + (1023 - b)) mod 1023"
    by (simp add: slot_def chain_code_mod)
qed

lemma unat_small: "n < 65793 \<Longrightarrow> unat (of_nat n :: 64 word) = n"
  by (simp add: unat_of_nat)

lemma chain_hasher_true:
  "0 < t \<Longrightarrow> t < 256 \<Longrightarrow> chain_hasher (of_nat t) = chain_field t 1 (t + 1)"
  by (simp add: chain_hasher_def unat_small)

lemma chain_hasher_wrong:
  "0 < j \<Longrightarrow> j < 256 \<Longrightarrow> chain_hasher (of_nat (256 + j)) = chain_field (2 * j + 1) 1 0"
  using unat_small [of "256 + j"] by (simp add: chain_hasher_def del: of_nat_add)

lemma chain_hasher_special:
  "chain_hasher 0 = chain_field 512 0 0"
  "chain_hasher 256 = chain_field 256 0 256"
  "chain_hasher 65536 = chain_field 0 1 1"
  "chain_hasher 65792 = chain_field 1 1 0"
  by (simp_all add: chain_hasher_def)

lemma slots_true:
  assumes "0 < t" "t < 256"
  shows "map (slot chain_hasher 1023 (of_nat t)) chain_seeds = [2 * t + 2, 2 * t, 0]"
proof -
  have "t < 1024" "(1::nat) < 1024" "t + 1 < 1024" using assms by simp_all
  from chain_field_slots [OF this chain_hasher_true [OF assms]] assms
  show ?thesis by (simp add: chain_seeds_def)
qed

lemma slots_key_256: "map (slot chain_hasher 1023 256) chain_seeds = [512, 512, 0]"
proof -
  have "(256::nat) < 1024" "(0::nat) < 1024" "(256::nat) < 1024" by simp_all
  from chain_field_slots [OF this chain_hasher_special(2)]
  show ?thesis by (simp add: chain_seeds_def)
qed

lemma slots_key_65536: "map (slot chain_hasher 1023 65536) chain_seeds = [2, 0, 0]"
proof -
  have "(0::nat) < 1024" "(1::nat) < 1024" "(1::nat) < 1024" by simp_all
  from chain_field_slots [OF this chain_hasher_special(3)]
  show ?thesis by (simp add: chain_seeds_def)
qed

lemma slots_wrong:
  assumes "j < 256"
  shows "map (slot chain_hasher 1023 (chain_wrong j)) chain_seeds = [2 * j + 2, 2 * j, 2 * j + 2]"
proof (cases "j = 0")
  case True
  have "(1::nat) < 1024" "(1::nat) < 1024" "(0::nat) < 1024" by simp_all
  from chain_field_slots [OF this chain_hasher_special(4)] True
  show ?thesis by (simp add: chain_seeds_def chain_wrong_def)
next
  case False
  then have j: "0 < j" by simp
  have "2 * j + 1 < 1024" "(1::nat) < 1024" "(0::nat) < 1024" using assms by simp_all
  moreover have "(1025 + 2 * j) mod 1023 = 2 * j + 2"
  proof -
    have "1025 + 2 * j = (2 * j + 2) + 1023" by simp
    then have "(1025 + 2 * j) mod 1023 = (2 * j + 2) mod 1023" by (simp only: mod_add_self2)
    then show ?thesis using assms by simp
  qed
  ultimately show ?thesis
    using chain_field_slots [OF _ _ _ chain_hasher_wrong [OF j assms]] assms False
    by (simp add: chain_seeds_def chain_wrong_def del: of_nat_add)
qed

lemma slots_wrong_last: "map (slot chain_hasher 1023 (chain_wrong 256)) chain_seeds = [512, 512, 512]"
proof -
  have "(512::nat) < 1024" "(0::nat) < 1024" "(0::nat) < 1024" by simp_all
  from chain_field_slots [OF this chain_hasher_special(1)]
  show ?thesis by (simp add: chain_seeds_def chain_wrong_def)
qed

lemma chain_probes:
  "probes chain_hasher 1023 chain_seeds key = set (map (slot chain_hasher 1023 key) chain_seeds)"
  by (simp add: probes_def)

lemma chain_state_simps [simp]:
  "seeds (chain_state j) = chain_seeds"
  "length (buckets (chain_state j)) = 1023"
  "count (chain_state j) = of_nat (257 - j)"
  "buckets (chain_state j) \<noteq> []"
  by (simp_all add: chain_state_def)

lemma chain_bucket_nth: "i < 1023 \<Longrightarrow> buckets (chain_state j) ! i = chain_bucket j i"
  by (simp add: chain_state_def)

lemma add_256: "j < 256 \<Longrightarrow> (of_nat (256 + j) :: 64 word) = of_nat j XOR 256"
proof -
  assume "j < 256"
  then have "j < 2 ^ 8" by simp
  from xor_high [OF this, of 0 1] have "j XOR 256 = j + 256" by simp
  then have "(of_nat (256 + j) :: 64 word) = of_nat (j XOR 256)" by (simp only: add.commute)
  also have "\<dots> = of_nat j XOR 256" by (simp only: of_nat_xor_eq) simp
  finally show ?thesis .
qed

lemma chain_wrong_step:
  assumes "j < 256"
  shows "chain_cum (Suc j) XOR chain_wrong j = chain_wrong (Suc j)"
proof -
  consider "j = 0" | "0 < j" "j < 255" | "j = 255" using assms by linarith
  then show ?thesis
  proof cases
    case 1
    then show ?thesis by (simp add: chain_cum_def chain_wrong_def)
  next
    case 2
    then have "(of_nat (256 + j) :: 64 word) = of_nat j XOR 256"
      and "(of_nat (256 + Suc j) :: 64 word) = of_nat (Suc j) XOR 256"
      by (simp_all only: add_256)
    with 2 show ?thesis
      by (simp add: chain_cum_def chain_wrong_def xor.assoc xor.left_commute del: of_nat_add of_nat_Suc)
  next
    case 3
    then show ?thesis by (simp add: chain_cum_def chain_wrong_def)
  qed
qed

lemma chain_bucket_here: "j \<le> 256 \<Longrightarrow> chain_bucket j (2 * j) = \<lparr>cumulative_key = chain_wrong j, bcount = 1\<rparr>"
  by (simp add: chain_bucket_def)

lemma chain_bucket_next:
  "j < 256 \<Longrightarrow> chain_bucket j (2 * j + 2) = \<lparr>cumulative_key = chain_cum (Suc j), bcount = 2\<rparr>"
  by (simp add: chain_bucket_def)

lemma chain_bucket_done: "i < 2 * j \<Longrightarrow> chain_bucket j i = \<lparr>cumulative_key = 0, bcount = 0\<rparr>"
  by (auto simp add: chain_bucket_def)

lemma chain_bucket_odd: "chain_bucket j (2 * m + 1) = \<lparr>cumulative_key = 0, bcount = 0\<rparr>"
  by (simp add: chain_bucket_def)

lemma chain_bucket_far: "512 < i \<Longrightarrow> chain_bucket j i = \<lparr>cumulative_key = 0, bcount = 0\<rparr>"
  by (simp add: chain_bucket_def)

lemma chain_bucket_other:
  "i \<noteq> 2 * j \<Longrightarrow> i \<noteq> 2 * j + 2 \<Longrightarrow> chain_bucket (Suc j) i = chain_bucket j i"
  by (auto simp add: chain_bucket_def elim!: evenE)

lemma probes_wrong:
  "j < 256 \<Longrightarrow> probes chain_hasher 1023 chain_seeds (chain_wrong j) = {2 * j + 2, 2 * j}"
  by (auto simp add: chain_probes slots_wrong)

lemma probes_wrong_last: "probes chain_hasher 1023 chain_seeds (chain_wrong 256) = {512}"
  by (simp add: chain_probes slots_wrong_last)

lemma chain_contains:
  assumes "j \<le> 256"
  shows "contains_ibf chain_hasher (chain_state j) (chain_wrong j) = Inr exists"
proof (cases "j = 256")
  case True
  from slots_wrong_last show ?thesis
    by (simp add: contains_ibf_char chain_seeds_def chain_bucket_nth True
        chain_bucket_here [of 256, simplified])
next
  case False
  with assms have j: "j < 256" by simp
  from slots_wrong [OF j] j show ?thesis
    by (simp add: contains_ibf_char chain_seeds_def chain_bucket_nth
        chain_bucket_here chain_bucket_next [simplified])
qed

lemma chain_buckets_step:
  assumes "j \<le> 256"
  shows "apply_at (probes chain_hasher 1023 chain_seeds (chain_wrong j)) (sub_key (chain_wrong j))
           (buckets (chain_state j)) = buckets (chain_state (Suc j))"
proof (cases "j = 256")
  case True
  have "apply_at {512} (sub_key (chain_wrong 256)) (buckets (chain_state 256)) ! i
          = buckets (chain_state 257) ! i" if "i < 1023" for i
  proof (cases "i = 512")
    case True
    with that show ?thesis
      using chain_bucket_here [of 256] chain_bucket_done [of 512 257]
      by (simp add: chain_bucket_nth sub_key_def)
  next
    case False
    with that show ?thesis
      using chain_bucket_other [of i 256] chain_bucket_far [of i 256] chain_bucket_far [of i 257]
      by (cases "i = 514") (simp_all add: chain_bucket_nth)
  qed
  then show ?thesis
    by (simp add: list_eq_iff_nth_eq probes_wrong_last True)
next
  case False
  with assms have j: "j < 256" by simp
  have "apply_at {2 * j + 2, 2 * j} (sub_key (chain_wrong j)) (buckets (chain_state j)) ! i
          = buckets (chain_state (Suc j)) ! i" if "i < 1023" for i
  proof -
    consider "i = 2 * j" | "i = 2 * j + 2" | "i \<noteq> 2 * j" "i \<noteq> 2 * j + 2" by blast
    then show ?thesis
    proof cases
      case 1
      with that j show ?thesis
        using chain_bucket_here [of j] chain_bucket_done [of "2 * j" "Suc j"]
        by (simp add: chain_bucket_nth sub_key_def)
    next
      case 2
      with that j show ?thesis
        using chain_bucket_next [of j] chain_bucket_here [of "Suc j"] chain_wrong_step [OF j]
        by (simp add: chain_bucket_nth sub_key_def)
    next
      case 3
      with that show ?thesis
        using chain_bucket_other [of i j] by (simp add: chain_bucket_nth)
    qed
  qed
  then show ?thesis
    by (simp add: list_eq_iff_nth_eq probes_wrong [OF j])
qed

lemma chain_remove:
  assumes "j \<le> 256"
  shows "remove_ibf chain_hasher (chain_state j) (chain_wrong j) = Inr (True, chain_state (Suc j))"
proof -
  have nz: "\<forall>i \<in> probes chain_hasher 1023 chain_seeds (chain_wrong j).
              bcount (buckets (chain_state j) ! i) \<noteq> 0"
  proof (cases "j = 256")
    case True
    then show ?thesis using chain_bucket_here [of 256]
      by (simp add: probes_wrong_last chain_bucket_nth)
  next
    case False
    with assms have j: "j < 256" by simp
    then show ?thesis using chain_bucket_here [of j] chain_bucket_next [of j]
      by (simp add: probes_wrong chain_bucket_nth)
  qed
  have cnt: "(of_nat (257 - j) :: 64 word) - 1 = of_nat (257 - Suc j)"
  proof -
    from assms have "257 - j = Suc (257 - Suc j)" by simp
    then show ?thesis by (simp only: of_nat_Suc) simp
  qed
  have st: "chain_state j\<lparr>buckets := buckets (chain_state (Suc j)), count := count (chain_state j) - 1\<rparr>
              = chain_state (Suc j)"
    using cnt by (simp add: chain_state_def)
  show ?thesis
    using nz chain_contains [OF assms] chain_buckets_step [OF assms] st
    by (simp add: remove_ibf_char)
qed

lemma chain_scan_step:
  assumes "j \<le> 256"
  shows "scan chain_hasher [2 * j..<1023] (chain_state j, R, fin, hc)
           = scan chain_hasher [2 * j + 2..<1023] (chain_state (Suc j), insert (chain_wrong j) R, fin, True)"
proof -
  have "[2 * j..<1023] = 2 * j # [Suc (2 * j)..<1023]"
    using assms by (intro upt_conv_Cons) simp
  moreover have "[Suc (2 * j)..<1023] = Suc (2 * j) # [Suc (Suc (2 * j))..<1023]"
    using assms by (intro upt_conv_Cons) simp
  moreover have "Suc (2 * j) = 2 * j + 1" "Suc (Suc (2 * j)) = 2 * j + 2" by simp_all
  ultimately have u: "[2 * j..<1023] = 2 * j # (2 * j + 1) # [2 * j + 2..<1023]"
    by (simp only:)
  have b: "buckets (chain_state j) ! (2 * j) = \<lparr>cumulative_key = chain_wrong j, bcount = 1\<rparr>"
    using assms by (simp add: chain_bucket_nth chain_bucket_here)
  have z: "bcount (buckets (chain_state (Suc j)) ! (2 * j)) = 0"
    using assms chain_bucket_done [of "2 * j" "Suc j"] by (simp add: chain_bucket_nth)
  have o: "bcount (buckets (chain_state (Suc j)) ! (2 * j + 1)) = 0"
    using assms chain_bucket_odd [of "Suc j" j] by (simp add: chain_bucket_nth)
  have s1: "scan chain_hasher (2 * j # rest) (chain_state j, R, fin, hc)
              = scan chain_hasher rest (chain_state (Suc j), insert (chain_wrong j) R, fin, True)"
    for rest
    using z by (simp add: b chain_remove [OF assms])
  have s2: "scan chain_hasher ((2 * j + 1) # rest) (chain_state (Suc j), R', fin, hc')
              = scan chain_hasher rest (chain_state (Suc j), R', fin, hc')"
    for rest R' hc'
    using o by simp
  show ?thesis by (simp only: u s1 s2)
qed

lemma chain_scan_rest:
  assumes "512 < a"
  shows "scan chain_hasher [a..<1023] (chain_state k, R, fin, hc) = Inr (chain_state k, R, fin, hc)"
proof -
  have z: "\<forall>i \<in> set [a..<1023]. bcount (buckets (chain_state k) ! i) = 0"
    using assms by (simp add: chain_bucket_nth chain_bucket_far)
  then have "\<forall>i \<in> set [a..<1023]. bcount (buckets (chain_state k) ! i) \<noteq> 1" by simp
  from scan_no_singleton [OF this] z show ?thesis by simp
qed

lemma chain_scan:
  "j \<le> 256 \<Longrightarrow>
   scan chain_hasher [2 * j..<1023] (chain_state j, R, fin, hc)
     = Inr (chain_state 257, R \<union> chain_wrong ` {j..<257}, fin, True)"
proof (induction "256 - j" arbitrary: j R hc)
  case 0
  then have j: "j = 256" by simp
  have a: "scan chain_hasher [2 * j..<1023] (chain_state j, R, fin, hc)
             = scan chain_hasher [2 * j + 2..<1023]
                 (chain_state (Suc j), insert (chain_wrong j) R, fin, True)"
    by (rule chain_scan_step) (simp add: j)
  have b: "scan chain_hasher [2 * j + 2..<1023] (chain_state (Suc j), insert (chain_wrong j) R, fin, True)
             = Inr (chain_state (Suc j), insert (chain_wrong j) R, fin, True)"
    by (rule chain_scan_rest) (simp add: j)
  have "{j..<257} = {j}" unfolding j by (rule set_eqI) (simp, arith)
  then have c: "R \<union> chain_wrong ` {j..<257} = insert (chain_wrong j) R" by simp
  have d: "Suc j = 257" using j by simp
  from a b show ?case unfolding c d by (rule trans)
next
  case (Suc n)
  then have j: "j \<le> 256" and n: "n = 256 - Suc j" and s: "Suc j \<le> 256" by simp_all
  have a: "scan chain_hasher [2 * j..<1023] (chain_state j, R, fin, hc)
             = scan chain_hasher [2 * j + 2..<1023]
                 (chain_state (Suc j), insert (chain_wrong j) R, fin, True)"
    by (rule chain_scan_step [OF j])
  have e: "2 * j + 2 = 2 * Suc j" by simp
  have c: "insert (chain_wrong j) R \<union> chain_wrong ` {Suc j..<257} = R \<union> chain_wrong ` {j..<257}"
  proof -
    have "{j..<257} = insert j {Suc j..<257}" using j by auto
    then show ?thesis by simp
  qed
  show ?case
    by (simp only: a e Suc.hyps(1) [OF n s, of "insert (chain_wrong j) R" True] c)
qed

lemma chain_wrong_image: "chain_wrong ` {0..<257} = chain_listed"
proof -
  have "{0..<257} = insert 0 (insert 256 {1..<256::nat})" by auto
  moreover have "chain_wrong ` {1..<256} = of_nat ` {257..<512}"
  proof -
    have "chain_wrong ` {1..<256} = (\<lambda>j. of_nat (256 + j)) ` {1..<256}"
      by (rule image_cong) (simp_all add: chain_wrong_def del: of_nat_add)
    also have "\<dots> = of_nat ` ((+) 256 ` {1..<256})" by (simp only: image_image)
    also have "(+) 256 ` {1..<256} = {257..<512::nat}"
      by (simp only: image_add_atLeastLessThan) simp
    finally show ?thesis .
  qed
  moreover have "chain_wrong 0 = 65792" "chain_wrong 256 = 0" by (simp_all add: chain_wrong_def)
  ultimately show ?thesis by (simp add: chain_listed_def insert_commute)
qed

lemma card_chain_listed: "card chain_listed = 257"
proof -
  have inj: "inj_on (of_nat :: nat \<Rightarrow> 64 word) {257..<512}"
    by (rule inj_onI) (rule of_nat_64_inj_small, simp_all)
  have a: "(0 :: 64 word) \<notin> of_nat ` {257..<512}"
  proof
    assume "(0 :: 64 word) \<in> of_nat ` {257..<512}"
    then obtain x where "x \<in> {257..<512}" "(of_nat x :: 64 word) = of_nat 0" by auto
    then show False using of_nat_64_inj_small [of x 0] by simp
  qed
  have b: "(65792 :: 64 word) \<notin> of_nat ` {257..<512}"
  proof
    assume "(65792 :: 64 word) \<in> of_nat ` {257..<512}"
    then obtain x where "x \<in> {257..<512}" "(of_nat x :: 64 word) = of_nat 65792" by auto
    then show False using of_nat_64_inj_small [of x 65792] by simp
  qed
  from a b show ?thesis by (simp add: chain_listed_def card_image [OF inj])
qed

lemma chain_listAll:
  "listAll_ibf chain_hasher (chain_state 0) = Some (Inr (chain_state 0, Some chain_listed))"
proof -
  have s: "scan chain_hasher [0..<1023] (chain_state 0, {}, True, False)
             = Inr (chain_state 257, chain_listed, True, True)"
    using chain_scan [of 0 "{}" True False]
    by (simp only: mult_0_right le0 Un_empty_left chain_wrong_image)
  have "peel chain_hasher (chain_state 0, {}, False, True)
          = peel chain_hasher (chain_state 257, chain_listed, True, True)"
    by (subst peel_step) (simp_all add: s del: upt_rec_numeral)
  also have "\<dots> = Some (Inr (chain_state 257, chain_listed, True, True))"
    by (rule peel_stop) simp
  finally show ?thesis
    by (simp add: listAll_ibf_def card_chain_listed)
qed

lemma xor_list_append: "xor_list (xs @ ys) = xor_list xs XOR xor_list ys"
  by (induction xs) (simp_all add: xor.assoc)

lemma xor_list_rev: "xor_list (rev xs) = xor_list xs"
  by (induction xs) (simp_all add: xor_list_append xor.commute)

lemma routed_rev: "routed hasher n sds i (rev ks) = rev (routed hasher n sds i ks)"
  by (simp add: routed_def rev_filter)

lemma filter_upt_unique:
  assumes "sorted ys" "distinct ys" "set ys = {t \<in> {a..<b}. Q t}"
  shows "filter Q [a..<b] = ys"
proof (rule sorted_distinct_set_unique)
  show "sorted (filter Q [a..<b])" by (rule sorted_wrt_filter) simp
  show "distinct (filter Q [a..<b])" by simp
  show "set (filter Q [a..<b]) = set ys" using assms(3) by auto
qed (rule assms)+

lemma probes_true:
  assumes "1 \<le> t" "t < 257"
  shows "i \<in> probes chain_hasher 1023 chain_seeds (of_nat t)
           \<longleftrightarrow> i = 0 \<or> i = 2 * t \<or> (i = 2 * t + 2 \<and> t < 256)"
proof (cases "t = 256")
  case True
  then show ?thesis using slots_key_256 by (auto simp add: chain_probes)
next
  case False
  with assms have "0 < t" "t < 256" by simp_all
  from slots_true [OF this] \<open>t < 256\<close> show ?thesis by (auto simp add: chain_probes)
qed

lemma probes_key_65536: "i \<in> probes chain_hasher 1023 chain_seeds 65536 \<longleftrightarrow> i = 0 \<or> i = 2"
  using slots_key_65536 by (auto simp add: chain_probes)

lemma routed_chain_keys:
  "routed chain_hasher 1023 chain_seeds i chain_keys
     = map of_nat (filter (\<lambda>t. i = 0 \<or> i = 2 * t \<or> (i = 2 * t + 2 \<and> t < 256)) [1..<257])
       @ (if i = 0 \<or> i = 2 then [65536] else [])"
proof -
  have "filter (\<lambda>k. i \<in> probes chain_hasher 1023 chain_seeds k) (map of_nat [1..<257])
          = map of_nat (filter (\<lambda>t. i = 0 \<or> i = 2 * t \<or> (i = 2 * t + 2 \<and> t < 256)) [1..<257])"
    unfolding filter_map o_def
    by (rule arg_cong [where f = "map of_nat"], rule filter_cong [OF refl])
       (simp only: set_upt atLeastLessThan_iff probes_true)
  then show ?thesis
    by (simp only: routed_def chain_keys_def filter_append filter.simps probes_key_65536)
qed

lemma upt_1_257: "[1..<257] = 1 # [2..<257]"
proof -
  have "[1..<257] = 1 # [Suc 1..<257]" by (rule upt_conv_Cons) simp
  moreover have "Suc 1 = 2" by simp
  ultimately show ?thesis by (simp only:)
qed

lemma xor_list_chain_keys: "xor_list chain_keys = 65792"
proof -
  have "xor_list (map of_nat [2..<257]) = (257 :: 64 word)" by simp
  then have "xor_list (map of_nat [1..<257]) = (256 :: 64 word)"
    by (simp only: upt_1_257 list.map xor_list_Cons of_nat_1) simp
  then show ?thesis by (simp only: chain_keys_def xor_list_append) simp
qed

lemma chain_bucket_content:
  assumes "i < 1023"
  shows "\<lparr>cumulative_key = xor_list (routed chain_hasher 1023 chain_seeds i (rev chain_keys)),
          bcount = of_nat (length (routed chain_hasher 1023 chain_seeds i (rev chain_keys)))\<rparr>
         = chain_bucket 0 i"
proof -
  let ?Q = "\<lambda>t. i = 0 \<or> i = 2 * t \<or> (i = 2 * t + 2 \<and> t < 256)"
  consider (zero) "i = 0" | (two) "i = 2"
    | (mid) m where "i = 2 * m" "2 \<le> m" "m \<le> 256"
    | (none) "odd i \<or> 512 < i"
  proof -
    have "i = 0 \<or> i = 2 \<or> (\<exists>m. i = 2 * m \<and> 2 \<le> m \<and> m \<le> 256) \<or> odd i \<or> 512 < i"
      by (cases "even i") (auto elim!: evenE)
    then show ?thesis using that by blast
  qed
  then show ?thesis
  proof cases
    case zero
    have "filter ?Q [1..<257] = [1..<257]" using zero by simp
    then have r: "routed chain_hasher 1023 chain_seeds i chain_keys = chain_keys"
      unfolding routed_chain_keys using zero by (simp add: chain_keys_def)
    have l: "length chain_keys = 257" by (simp add: chain_keys_def)
    show ?thesis
      by (simp only: routed_rev xor_list_rev length_rev r l xor_list_chain_keys)
         (simp add: zero chain_bucket_def chain_wrong_def)
  next
    case two
    have "filter ?Q [1..<257] = [1]"
      by (rule filter_upt_unique) (use two in auto)
    then have r: "routed chain_hasher 1023 chain_seeds i chain_keys = [1, 65536]"
      using two by (simp only: routed_chain_keys) simp
    show ?thesis
      by (simp only: routed_rev xor_list_rev length_rev r)
         (simp add: two chain_bucket_def chain_cum_def)
  next
    case mid
    have "filter ?Q [1..<257] = [m - 1, m]"
      by (rule filter_upt_unique) (use mid in auto)
    then have r: "routed chain_hasher 1023 chain_seeds i chain_keys = [of_nat (m - 1), of_nat m]"
      using mid by (simp only: routed_chain_keys) simp
    show ?thesis
      by (simp only: routed_rev xor_list_rev length_rev r)
         (use mid in \<open>simp add: chain_bucket_def chain_cum_def\<close>)
  next
    case none
    have nz: "i \<noteq> 0" "i \<noteq> 2"
    proof -
      show "i \<noteq> 0" using none by (cases "i = 0") simp_all
      show "i \<noteq> 2" using none by (cases "i = 2") simp_all
    qed
    have "filter ?Q [1..<257] = []"
      by (rule filter_upt_unique) (use none nz in auto)
    then have r: "routed chain_hasher 1023 chain_seeds i chain_keys = []"
      using nz by (simp only: routed_chain_keys) simp
    show ?thesis
      by (simp only: routed_rev xor_list_rev length_rev r)
         (use none in \<open>auto simp add: chain_bucket_def\<close>)
  qed
qed

lemma chain_insert_all: "insert_all chain_hasher chain_fresh chain_keys = Inr (chain_state 0)"
proof -
  have "consistent chain_hasher chain_fresh []"
    by (rule consistent_fresh [of 1023]) (simp_all add: fresh_def chain_fresh_def)
  from insert_all_consistent [OF this, of chain_keys]
  obtain s' where i: "insert_all chain_hasher chain_fresh chain_keys = Inr s'"
    and c: "consistent chain_hasher s' (rev chain_keys)"
    and l: "length (buckets s') = 1023" and sd: "seeds s' = chain_seeds"
    by (auto simp: chain_fresh_def)
  have "buckets s' ! i = chain_bucket 0 i" if "i < 1023" for i
    using c that chain_bucket_content [OF that] by (simp only: consistent_def l sd)
  then have b: "buckets s' = map (chain_bucket 0) [0..<1023]"
    using l by (simp add: list_eq_iff_nth_eq del: upt_rec_numeral)
  have "count s' = of_nat (length (rev chain_keys))" using c by (simp only: consistent_def)
  then have n: "count s' = 257" by (simp add: chain_keys_def)
  have "s' = chain_state 0" using b n sd by (simp add: chain_state_def del: upt_rec_numeral)
  with i show ?thesis by simp
qed


section \<open>More keys than a counter can count\<close>

lemma insert_all_append:
  "insert_all hasher s (xs @ ys) =
     (case insert_all hasher s xs of Inl e \<Rightarrow> Inl e | Inr s' \<Rightarrow> insert_all hasher s' ys)"
  by (induction xs arbitrary: s) (auto split: sum.splits)

lemma spread_probes:
  "t < 300 \<Longrightarrow> probes identity_hash 300 [0] (of_nat t) = {t}"
  by (simp add: probes_def slot_def identity_hash_def unat_of_nat)

lemma spread_reachable:
  "j \<le> 300 \<Longrightarrow>
   \<exists>s. insert_all identity_hash spread_fresh (map of_nat [0..<j]) = Inr s
       \<and> reachable identity_hash s (rev (map of_nat [0..<j]))
       \<and> seeds s = [0] \<and> length (buckets s) = 300"
proof (induction j)
  case 0
  have "reachable identity_hash spread_fresh []"
    by (rule reachable_fresh [of 300]) (simp_all add: fresh_def spread_fresh_def)
  then show ?case by (simp add: spread_fresh_def)
next
  case (Suc j)
  then obtain s where i: "insert_all identity_hash spread_fresh (map of_nat [0..<j]) = Inr s"
    and r: "reachable identity_hash s (rev (map of_nat [0..<j]))"
    and sd: "seeds s = [0]" and l: "length (buckets s) = 300" by auto
  let ?ks = "rev (map of_nat [0..<j]) :: 64 word list"
  have j: "j < 300" using Suc.prems by simp
  have ne: "buckets s \<noteq> []" using l by auto
  let ?s' = "s\<lparr>buckets := apply_at (probes identity_hash (length (buckets s)) (seeds s) (of_nat j))
                           (add_key (of_nat j)) (buckets s),
              count := count s + 1\<rparr>"
  have ins: "insert_ibf identity_hash s (of_nat j) = Inr ?s'" by (rule insert_ibf_char [OF ne])
  from reachable_consistent [OF r] have c: "consistent identity_hash s ?ks" by simp
  have "routed identity_hash 300 [0] j ?ks = []"
  proof -
    have "j \<notin> probes identity_hash 300 [0] k" if "k \<in> set ?ks" for k
    proof -
      from that obtain t where t: "t < j" "k = of_nat t" by auto
      with j have "probes identity_hash 300 [0] k = {t}" by (simp add: spread_probes)
      with t show ?thesis by simp
    qed
    then show ?thesis by (simp add: routed_def)
  qed
  with c j have b: "bcount (buckets s ! j) = 0" by (simp add: consistent_def l sd)
  have g: "\<forall>i \<in> probes identity_hash (length (buckets s)) (seeds s) (of_nat j).
             bcount (buckets s ! i) \<noteq> - 1"
    using b j by (simp add: l sd spread_probes)
  from reachable_insert [OF r g ins]
  have r': "reachable identity_hash ?s' (rev (map of_nat [0..<Suc j]))" by simp
  have "insert_all identity_hash spread_fresh (map of_nat [0..<Suc j]) = Inr ?s'"
    using i ins by (simp add: insert_all_append)
  with r' sd l show ?case by (intro exI [of _ ?s']) simp
qed

lemma spread_full:
  "\<exists>s. insert_all identity_hash spread_fresh spread_keys = Inr s
       \<and> reachable identity_hash s (rev spread_keys)
       \<and> seeds s = [0] \<and> length (buckets s) = 300"
  unfolding spread_keys_def by (rule spread_reachable) simp

lemma length_spread_keys: "length (rev spread_keys) = 300"
  by (simp only: spread_keys_def length_rev length_map length_upt diff_zero)

lemma seven_in_spread_keys: "(7 :: 64 word) \<in> set (rev spread_keys)"
proof -
  have "(7::nat) \<in> {0..<300}" by simp
  then have "of_nat 7 \<in> (of_nat :: nat \<Rightarrow> 64 word) ` {0..<300}" by (rule imageI)
  then show ?thesis by (simp only: spread_keys_def set_rev set_map set_upt) simp
qed

lemma spread_bucket_7:
  assumes "reachable identity_hash s (rev spread_keys)" "seeds s = [0]" "length (buckets s) = 300"
  shows "bcount (buckets s ! slot identity_hash (length (buckets s)) 7 0) = 1"
proof -
  have "filter (\<lambda>k. 7 \<in> probes identity_hash 300 [0] k) (map of_nat [0..<300])
          = map of_nat (filter (\<lambda>t. t = 7) [0..<300])"
    unfolding filter_map o_def
    by (rule arg_cong [where f = "map of_nat"], rule filter_cong [OF refl])
       (auto simp only: set_upt atLeastLessThan_iff spread_probes)
  moreover have "filter (\<lambda>t. t = 7) [0..<300] = [7::nat]"
    by (rule filter_upt_unique) auto
  ultimately have "routed identity_hash 300 [0] 7 spread_keys = [7]"
    by (simp only: routed_def spread_keys_def) simp
  then have "routed identity_hash 300 [0] 7 (rev spread_keys) = [7]"
    by (simp only: routed_rev) simp
  moreover from reachable_consistent [OF assms(1)]
  have "consistent identity_hash s (rev spread_keys)" by simp
  moreover have "slot identity_hash 300 7 0 = 7" by (simp add: slot_def identity_hash_def)
  ultimately show ?thesis using assms(2,3) by (simp add: consistent_def)
qed

section \<open>Calls on objects in memory\<close>

lemma writes_only_refl: "writes_only p m m"
  by (simp add: writes_only_def)

lemma writes_only_trans: "writes_only p m m' \<Longrightarrow> writes_only p m' m'' \<Longrightarrow> writes_only p m m''"
  by (simp add: writes_only_def)

lemma load_store_to [simp]: "load (store_to m p s) p = s"
  by (simp add: load_def store_to_def)

lemma store_to_store_to [simp]: "store_to (store_to m p s) p s' = store_to m p s'"
  by (simp add: store_to_def)

lemma store_to_load [simp]: "store_to m p (load m p) = m"
  by (simp add: store_to_def load_def)

lemma writes_only_store_to: "writes_only p m (store_to m p s)"
  by (simp add: writes_only_def store_to_def)

lemma remove_at_writes:
  "remove_at hasher m p key = Inr (ok, m') \<Longrightarrow> writes_only p m m'"
  by (auto simp: remove_at_def writes_only_store_to split: sum.splits)

lemma scan_at_writes:
  "scan_at hasher p is (m, res, fin, hc) = Inr (m', res', fin', hc') \<Longrightarrow> writes_only p m m'"
proof (induction "is" arbitrary: m res fin hc)
  case Nil
  then show ?case by (simp add: writes_only_refl)
next
  case (Cons i "is")
  let ?b = "buckets (load m p) ! i"
  consider (zero) "bcount ?b = 0" | (many) "bcount ?b \<noteq> 0" "1 < bcount ?b"
    | (one) "bcount ?b \<noteq> 0" "\<not> 1 < bcount ?b" by blast
  then show ?case
  proof cases
    case zero
    with Cons.prems have "scan_at hasher p is (m, res, fin, hc) = Inr (m', res', fin', hc')" by simp
    then show ?thesis by (rule Cons.IH)
  next
    case many
    with Cons.prems have "scan_at hasher p is (m, res, False, hc) = Inr (m', res', fin', hc')" by simp
    then show ?thesis by (rule Cons.IH)
  next
    case one
    with Cons.prems obtain ok m1 where
      rem: "remove_at hasher m p (cumulative_key ?b) = Inr (ok, m1)"
      and rest: "scan_at hasher p is (m1, insert (cumulative_key ?b) res, fin, ok)
                   = Inr (m', res', fin', hc')"
      by (auto simp: Let_def split: sum.splits if_splits)
    from remove_at_writes [OF rem] Cons.IH [OF rest] show ?thesis by (rule writes_only_trans)
  qed
qed

lemma peel_at_writes_aux:
  fixes st :: "('k::len, 'c::len) scan_memory"
  shows "peel_at hasher p st = Some r \<Longrightarrow> \<forall>st'. r = Inr st' \<longrightarrow> writes_only p (fst st) (fst st')"
proof (erule peel_at.raw_induct
    [where P = "\<lambda>hasher p st r. \<forall>st'. r = Inr st' \<longrightarrow> writes_only p (fst st) (fst st')", rotated])
  fix f :: "'k HashFn \<Rightarrow> addr \<Rightarrow> ('k, 'c) scan_memory \<Rightarrow> (error + ('k, 'c) scan_memory) option"
  fix hasher :: "'k HashFn" and p :: addr and st :: "('k, 'c) scan_memory" and r
  assume IH: "\<And>hasher p st r. f hasher p st = Some r \<Longrightarrow>
     \<forall>st'. r = Inr st' \<longrightarrow> writes_only p (fst st) (fst st')"
  assume step: "(if \<not> fst (snd (snd st)) \<and> snd (snd (snd st))
      then (let r = scan_at hasher p [0..<length (buckets (load (fst st) p))]
                      (fst st, fst (snd st), True, False)
            in if isl r then Some r else f hasher p (projr r))
      else Some (Inr st)) = Some r"
  show "\<forall>st'. r = Inr st' \<longrightarrow> writes_only p (fst st) (fst st')"
  proof (intro impI allI)
    fix st'
    assume r: "r = Inr st'"
    obtain m res fin hc where st: "st = (m, res, fin, hc)" by (cases st) auto
    show "writes_only p (fst st) (fst st')"
    proof (cases "\<not> fin \<and> hc")
      case False
      with step st r show ?thesis by (auto simp: writes_only_refl)
    next
      case True
      let ?r = "scan_at hasher p [0..<length (buckets (load m p))] (m, res, True, False)"
      show ?thesis
      proof (cases ?r)
        case (Inl e)
        with step st True r show ?thesis by (simp add: Let_def)
      next
        case (Inr st1)
        obtain m1 res1 fin1 hc1 where st1: "st1 = (m1, res1, fin1, hc1)" by (cases st1) auto
        from scan_at_writes [OF Inr [unfolded st1]] have w: "writes_only p m m1" .
        from step st True Inr have "f hasher p st1 = Some r" by (simp add: Let_def)
        from IH [OF this] r have "writes_only p (fst st1) (fst st')" by blast
        with w show ?thesis by (auto simp: st st1 intro: writes_only_trans)
      qed
    qed
  qed
qed

lemma peel_at_writes:
  "peel_at hasher p (m, res, fin, hc) = Some (Inr (m', res', fin', hc')) \<Longrightarrow> writes_only p m m'"
  using peel_at_writes_aux [of hasher p "(m, res, fin, hc)" "Inr (m', res', fin', hc')"] by simp

lemma listAll_at_frame:
  assumes "listAll_at hasher m this = Some (Inr (m', r))"
  shows "\<forall>p < next_free m. objects m' p = objects m p \<and> blocks m' p = blocks m p"
proof -
  let ?q = "next_free m"
  let ?m1 = "fst (copy_construct m this)"
  have q: "snd (copy_construct m this) = ?q" by (simp add: copy_construct_def Let_def)
  from assms obtain res fin hc where
    p: "peel_at hasher ?q (?m1, {}, False, True) = Some (Inr (m', res, fin, hc))"
    by (auto simp: listAll_at_def copy_construct_def Let_def split: option.splits sum.splits prod.splits)
  from peel_at_writes [OF p] have w: "writes_only ?q ?m1 m'" .
  have b: "o_buckets (objects ?m1 ?q) = Suc ?q" by (simp add: copy_construct_def Let_def)
  show ?thesis
  proof (intro allI impI)
    fix p assume "p < next_free m"
    then have "p \<noteq> ?q" "p \<noteq> Suc ?q" by simp_all
    with w b have "objects m' p = objects ?m1 p" "blocks m' p = blocks ?m1 p"
      by (simp_all add: writes_only_def)
    moreover from \<open>p \<noteq> ?q\<close> \<open>p \<noteq> Suc ?q\<close>
    have "objects ?m1 p = objects m p" "blocks ?m1 p = blocks m p"
      by (simp_all add: copy_construct_def Let_def)
    ultimately show "objects m' p = objects m p \<and> blocks m' p = blocks m p" by simp
  qed
qed
lemma scan_at_sim:
  "scan_at hasher p is (m, res, fin, hc) =
     (case scan hasher is (load m p, res, fin, hc) of
        Inl e \<Rightarrow> Inl e
      | Inr (s', rest) \<Rightarrow> Inr (store_to m p s', rest))"
proof (induction "is" arbitrary: m res fin hc)
  case Nil
  then show ?case by simp
next
  case (Cons i "is")
  show ?case
    by (auto simp: Let_def remove_at_def Cons.IH split: sum.splits prod.splits)
qed

lemma peel_at_sim_aux:
  fixes st :: "('k::len, 'c::len) scan_state"
  shows "peel hasher st = Some r \<Longrightarrow>
   \<forall>m. fst st = load m p \<longrightarrow>
     peel_at hasher p (m, snd st) =
       Some (case r of Inl e \<Rightarrow> Inl e | Inr (s', rest) \<Rightarrow> Inr (store_to m p s', rest))"
proof (erule peel.raw_induct
    [where P = "\<lambda>hasher st r. \<forall>m. fst st = load m p \<longrightarrow>
       peel_at hasher p (m, snd st) =
         Some (case r of Inl e \<Rightarrow> Inl e | Inr (s', rest) \<Rightarrow> Inr (store_to m p s', rest))",
      rotated])
  fix f :: "'k HashFn \<Rightarrow> ('k, 'c) scan_state \<Rightarrow> (error + ('k, 'c) scan_state) option"
  fix hasher :: "'k HashFn" and st :: "('k, 'c) scan_state" and r
  assume IH: "\<And>hasher st r. f hasher st = Some r \<Longrightarrow>
     \<forall>m. fst st = load m p \<longrightarrow>
       peel_at hasher p (m, snd st) =
         Some (case r of Inl e \<Rightarrow> Inl e | Inr (s', rest) \<Rightarrow> Inr (store_to m p s', rest))"
  assume step: "(if \<not> fst (snd (snd st)) \<and> snd (snd (snd st))
      then (let r = scan hasher [0..<length (buckets (fst st))] (fst st, fst (snd st), True, False)
            in if isl r then Some r else f hasher (projr r))
      else Some (Inr st)) = Some r"
  show "\<forall>m. fst st = load m p \<longrightarrow>
       peel_at hasher p (m, snd st) =
         Some (case r of Inl e \<Rightarrow> Inl e | Inr (s', rest) \<Rightarrow> Inr (store_to m p s', rest))"
  proof (intro allI impI)
    fix m
    assume l: "fst st = load m p"
    obtain s res fin hc where st: "st = (s, res, fin, hc)" by (cases st) auto
    from l st have s: "s = load m p" by simp
    show "peel_at hasher p (m, snd st) =
         Some (case r of Inl e \<Rightarrow> Inl e | Inr (s', rest) \<Rightarrow> Inr (store_to m p s', rest))"
    proof (cases "\<not> fin \<and> hc")
      case False
      with step st have "r = Inr (s, res, fin, hc)" by auto
      with False show ?thesis
        by (subst peel_at.simps) (auto simp: st s)
    next
      case True
      let ?r = "scan hasher [0..<length (buckets s)] (s, res, True, False)"
      note sim = scan_at_sim [of hasher p "[0..<length (buckets s)]" m res True False, folded s]
      show ?thesis
      proof (cases ?r)
        case (Inl e)
        with step st True have "r = Inl e" by (simp add: Let_def)
        with True Inl sim show ?thesis
          by (subst peel_at.simps) (simp add: st s Let_def)
      next
        case (Inr st1)
        obtain s1 rest1 where st1: "st1 = (s1, rest1)" by (cases st1) auto
        from step st True Inr have "f hasher st1 = Some r" by (simp add: Let_def)
        from IH [OF this, rule_format, of "store_to m p s1"]
        have "peel_at hasher p (store_to m p s1, rest1) =
                Some (case r of Inl e \<Rightarrow> Inl e | Inr (s', rest) \<Rightarrow> Inr (store_to m p s', rest))"
          by (cases r) (auto simp: st1)
        with True Inr sim show ?thesis
          by (subst peel_at.simps) (auto simp: st s st1 Let_def split: sum.splits prod.splits)
      qed
    qed
  qed
qed

lemma peel_at_sim:
  "peel hasher (load m p, res, fin, hc) = Some (Inr (s', res', fin', hc')) \<Longrightarrow>
   peel_at hasher p (m, res, fin, hc) = Some (Inr (store_to m p s', res', fin', hc'))"
  using peel_at_sim_aux [of hasher "(load m p, res, fin, hc)" "Inr (s', res', fin', hc')" p]
  by simp

lemma load_copy_construct:
  "load (fst (copy_construct m this)) (snd (copy_construct m this)) = load m this"
  by (simp add: copy_construct_def load_def Let_def)

lemma listAll_at_sim:
  assumes w: "this < next_free m" "o_buckets (objects m this) < next_free m"
    and l: "listAll_ibf hasher (load m this) = Some (Inr (s, r))"
  shows "\<exists>m'. listAll_at hasher m this = Some (Inr (m', r))"
proof -
  let ?q = "next_free m"
  define m1 where "m1 = fst (copy_construct m this)"
  have cc: "copy_construct m this = (m1, ?q)" by (simp add: m1_def copy_construct_def Let_def)
  have l1: "load m1 ?q = load m this" using load_copy_construct [of m this] by (simp add: cc)
  from l obtain copy' res fin hc where
    p: "peel hasher (load m this, {}, False, True) = Some (Inr (copy', res, fin, hc))"
    and r: "r = (if \<not> fin \<or> of_nat (card res) \<noteq> count (load m this) then None else Some res)"
    by (auto simp: listAll_ibf_def split: option.splits sum.splits)
  let ?m2 = "store_to m1 ?q copy'"
  from peel_at_sim [of hasher m1 ?q, unfolded l1, OF p]
  have pa: "peel_at hasher ?q (m1, {}, False, True) = Some (Inr (?m2, res, fin, hc))" .
  have "load ?m2 this = load m this"
    using w by (simp add: load_def store_to_def m1_def copy_construct_def Let_def)
  then have "listAll_at hasher m this = Some (Inr (?m2, r))"
    using pa r by (simp add: listAll_at_def cc)
  then show ?thesis by blast
qed

lemma peel_at_sim_err:
  "peel hasher (load m p, res, fin, hc) = Some (Inl e) \<Longrightarrow>
   peel_at hasher p (m, res, fin, hc) = Some (Inl e)"
  using peel_at_sim_aux [of hasher "(load m p, res, fin, hc)" "Inl e" p] by simp

lemma listAll_at_sim_err:
  assumes l: "listAll_ibf hasher (load m this) = Some (Inl e)"
  shows "listAll_at hasher m this = Some (Inl e)"
proof -
  let ?q = "next_free m"
  define m1 where "m1 = fst (copy_construct m this)"
  have cc: "copy_construct m this = (m1, ?q)" by (simp add: m1_def copy_construct_def Let_def)
  have l1: "load m1 ?q = load m this" using load_copy_construct [of m this] by (simp add: cc)
  from l have "peel hasher (load m this, {}, False, True) = Some (Inl e)"
    by (auto simp: listAll_ibf_def split: option.splits sum.splits)
  from peel_at_sim_err [of hasher m1 ?q, unfolded l1, OF this]
  show ?thesis by (simp add: listAll_at_def cc)
qed

lemma listAll_at_result:
  assumes w: "this < next_free m" "o_buckets (objects m this) < next_free m"
    and l: "listAll_at hasher m this = Some (Inr (m', r))"
  shows "listAll_ibf hasher (load m this) = Some (Inr (load m this, r))"
proof -
  obtain x where x: "listAll_ibf hasher (load m this) = Some x"
    using listAll_ibf_terminates by blast
  show ?thesis
  proof (cases x)
    case (Inl e)
    with x listAll_at_sim_err [of hasher m this e] l show ?thesis by simp
  next
    case (Inr y)
    obtain s r2 where y: "y = (s, r2)" by (cases y) auto
    from x Inr y have s: "s = load m this"
      by (auto simp: listAll_ibf_def Let_def split: option.splits sum.splits prod.splits)
    from listAll_at_sim [OF w, of hasher s r2] x Inr y l have "r2 = r" by auto
    with x Inr y s show ?thesis by simp
  qed
qed

lemma listAll_at_unchanged:
  assumes w: "this < next_free m" "o_buckets (objects m this) < next_free m"
    and l: "listAll_at hasher m this = Some (Inr (m', r))"
  shows "load m' this = load m this"
  using listAll_at_frame [OF l] w by (simp add: load_def)

lemma load_store_to_d [simp]: "load_d (store_to_d m p s) p = s"
  by (simp add: load_d_def store_to_d_def)

lemma store_to_d_store_to_d [simp]: "store_to_d (store_to_d m p s) p s' = store_to_d m p s'"
  by (simp add: store_to_d_def)

lemma store_to_d_load [simp]: "store_to_d m p (load_d m p) = m"
  by (simp add: store_to_d_def load_d_def)

lemma writes_only_store_to_d: "writes_only p m (store_to_d m p s)"
  by (simp add: writes_only_def store_to_d_def)

lemma remove_at_d_writes:
  "remove_at_d hasher m p key = Inr (ok, m') \<Longrightarrow> writes_only p m m'"
  by (auto simp: remove_at_d_def writes_only_store_to_d split: sum.splits)

lemma scan_at_d_writes:
  "scan_at_d hasher p is (m, res, fin, hc) = Inr (m', res', fin', hc') \<Longrightarrow> writes_only p m m'"
proof (induction "is" arbitrary: m res fin hc)
  case Nil
  then show ?case by (simp add: writes_only_refl)
next
  case (Cons i "is")
  let ?b = "buckets_d (load_d m p) ! i"
  consider (zero) "bcount_d ?b = 0" | (many) "bcount_d ?b \<noteq> 0" "1 < bcount_d ?b"
    | (one) "bcount_d ?b \<noteq> 0" "\<not> 1 < bcount_d ?b" by blast
  then show ?case
  proof cases
    case zero
    with Cons.prems have "scan_at_d hasher p is (m, res, fin, hc) = Inr (m', res', fin', hc')" by simp
    then show ?thesis by (rule Cons.IH)
  next
    case many
    with Cons.prems have "scan_at_d hasher p is (m, res, False, hc) = Inr (m', res', fin', hc')" by simp
    then show ?thesis by (rule Cons.IH)
  next
    case one
    with Cons.prems obtain ok m1 where
      rem: "remove_at_d hasher m p (cumulative_key_d ?b) = Inr (ok, m1)"
      and rest: "scan_at_d hasher p is (m1, res @ [(cumulative_key_d ?b, cumulative_value ?b)], fin, ok)
                   = Inr (m', res', fin', hc')"
      by (auto simp: Let_def split: sum.splits if_splits)
    from remove_at_d_writes [OF rem] Cons.IH [OF rest] show ?thesis by (rule writes_only_trans)
  qed
qed

lemma peel_at_d_writes_aux:
  fixes st :: "('k::len, 'v::len, 'c::len) scan_memory_d"
  shows "peel_at_d hasher p st = Some r \<Longrightarrow> \<forall>st'. r = Inr st' \<longrightarrow> writes_only p (fst st) (fst st')"
proof (erule peel_at_d.raw_induct
    [where P = "\<lambda>hasher p st r. \<forall>st'. r = Inr st' \<longrightarrow> writes_only p (fst st) (fst st')", rotated])
  fix f :: "'k HashFn \<Rightarrow> addr \<Rightarrow> ('k, 'v, 'c) scan_memory_d \<Rightarrow> (error + ('k, 'v, 'c) scan_memory_d) option"
  fix hasher :: "'k HashFn" and p :: addr and st :: "('k, 'v, 'c) scan_memory_d" and r
  assume IH: "\<And>hasher p st r. f hasher p st = Some r \<Longrightarrow>
     \<forall>st'. r = Inr st' \<longrightarrow> writes_only p (fst st) (fst st')"
  assume step: "(if \<not> fst (snd (snd st)) \<and> snd (snd (snd st))
      then (let r = scan_at_d hasher p [0..<length (buckets_d (load_d (fst st) p))]
                      (fst st, fst (snd st), True, False)
            in if isl r then Some r else f hasher p (projr r))
      else Some (Inr st)) = Some r"
  show "\<forall>st'. r = Inr st' \<longrightarrow> writes_only p (fst st) (fst st')"
  proof (intro impI allI)
    fix st'
    assume r: "r = Inr st'"
    obtain m res fin hc where st: "st = (m, res, fin, hc)" by (cases st) auto
    show "writes_only p (fst st) (fst st')"
    proof (cases "\<not> fin \<and> hc")
      case False
      with step st r show ?thesis by (auto simp: writes_only_refl)
    next
      case True
      let ?r = "scan_at_d hasher p [0..<length (buckets_d (load_d m p))] (m, res, True, False)"
      show ?thesis
      proof (cases ?r)
        case (Inl e)
        with step st True r show ?thesis by (simp add: Let_def)
      next
        case (Inr st1)
        obtain m1 res1 fin1 hc1 where st1: "st1 = (m1, res1, fin1, hc1)" by (cases st1) auto
        from scan_at_d_writes [OF Inr [unfolded st1]] have w: "writes_only p m m1" .
        from step st True Inr have "f hasher p st1 = Some r" by (simp add: Let_def)
        from IH [OF this] r have "writes_only p (fst st1) (fst st')" by blast
        with w show ?thesis by (auto simp: st st1 intro: writes_only_trans)
      qed
    qed
  qed
qed

lemma peel_at_d_writes:
  "peel_at_d hasher p (m, res, fin, hc) = Some (Inr (m', res', fin', hc')) \<Longrightarrow> writes_only p m m'"
  using peel_at_d_writes_aux [of hasher p "(m, res, fin, hc)" "Inr (m', res', fin', hc')"] by simp

lemma listAll_at_d_frame:
  assumes "listAll_at_d hasher m this = Some (Inr (m', r))"
  shows "\<forall>p < next_free m. objects m' p = objects m p \<and> blocks m' p = blocks m p"
proof -
  let ?q = "next_free m"
  let ?m1 = "fst (copy_construct m this)"
  have q: "snd (copy_construct m this) = ?q" by (simp add: copy_construct_def Let_def)
  from assms obtain res fin hc where
    p: "peel_at_d hasher ?q (?m1, [], False, True) = Some (Inr (m', res, fin, hc))"
    by (auto simp: listAll_at_d_def copy_construct_def Let_def split: option.splits sum.splits prod.splits)
  from peel_at_d_writes [OF p] have w: "writes_only ?q ?m1 m'" .
  have b: "o_buckets (objects ?m1 ?q) = Suc ?q" by (simp add: copy_construct_def Let_def)
  show ?thesis
  proof (intro allI impI)
    fix p assume "p < next_free m"
    then have "p \<noteq> ?q" "p \<noteq> Suc ?q" by simp_all
    with w b have "objects m' p = objects ?m1 p" "blocks m' p = blocks ?m1 p"
      by (simp_all add: writes_only_def)
    moreover from \<open>p \<noteq> ?q\<close> \<open>p \<noteq> Suc ?q\<close>
    have "objects ?m1 p = objects m p" "blocks ?m1 p = blocks m p"
      by (simp_all add: copy_construct_def Let_def)
    ultimately show "objects m' p = objects m p \<and> blocks m' p = blocks m p" by simp
  qed
qed
lemma scan_at_d_sim:
  "scan_at_d hasher p is (m, res, fin, hc) =
     (case scan_d hasher is (load_d m p, res, fin, hc) of
        Inl e \<Rightarrow> Inl e
      | Inr (s', rest) \<Rightarrow> Inr (store_to_d m p s', rest))"
proof (induction "is" arbitrary: m res fin hc)
  case Nil
  then show ?case by simp
next
  case (Cons i "is")
  show ?case
    by (auto simp: Let_def remove_at_d_def Cons.IH split: sum.splits prod.splits)
qed

lemma peel_at_d_sim_aux:
  fixes st :: "('k::len, 'v::len, 'c::len) scan_state_d"
  shows "peel_d hasher st = Some r \<Longrightarrow>
   \<forall>m. fst st = load_d m p \<longrightarrow>
     peel_at_d hasher p (m, snd st) =
       Some (case r of Inl e \<Rightarrow> Inl e | Inr (s', rest) \<Rightarrow> Inr (store_to_d m p s', rest))"
proof (erule peel_d.raw_induct
    [where P = "\<lambda>hasher st r. \<forall>m. fst st = load_d m p \<longrightarrow>
       peel_at_d hasher p (m, snd st) =
         Some (case r of Inl e \<Rightarrow> Inl e | Inr (s', rest) \<Rightarrow> Inr (store_to_d m p s', rest))",
      rotated])
  fix f :: "'k HashFn \<Rightarrow> ('k, 'v, 'c) scan_state_d \<Rightarrow> (error + ('k, 'v, 'c) scan_state_d) option"
  fix hasher :: "'k HashFn" and st :: "('k, 'v, 'c) scan_state_d" and r
  assume IH: "\<And>hasher st r. f hasher st = Some r \<Longrightarrow>
     \<forall>m. fst st = load_d m p \<longrightarrow>
       peel_at_d hasher p (m, snd st) =
         Some (case r of Inl e \<Rightarrow> Inl e | Inr (s', rest) \<Rightarrow> Inr (store_to_d m p s', rest))"
  assume step: "(if \<not> fst (snd (snd st)) \<and> snd (snd (snd st))
      then (let r = scan_d hasher [0..<length (buckets_d (fst st))] (fst st, fst (snd st), True, False)
            in if isl r then Some r else f hasher (projr r))
      else Some (Inr st)) = Some r"
  show "\<forall>m. fst st = load_d m p \<longrightarrow>
       peel_at_d hasher p (m, snd st) =
         Some (case r of Inl e \<Rightarrow> Inl e | Inr (s', rest) \<Rightarrow> Inr (store_to_d m p s', rest))"
  proof (intro allI impI)
    fix m
    assume l: "fst st = load_d m p"
    obtain s res fin hc where st: "st = (s, res, fin, hc)" by (cases st) auto
    from l st have s: "s = load_d m p" by simp
    show "peel_at_d hasher p (m, snd st) =
         Some (case r of Inl e \<Rightarrow> Inl e | Inr (s', rest) \<Rightarrow> Inr (store_to_d m p s', rest))"
    proof (cases "\<not> fin \<and> hc")
      case False
      with step st have "r = Inr (s, res, fin, hc)" by auto
      with False show ?thesis
        by (subst peel_at_d.simps) (auto simp: st s)
    next
      case True
      let ?r = "scan_d hasher [0..<length (buckets_d s)] (s, res, True, False)"
      note sim = scan_at_d_sim [of hasher p "[0..<length (buckets_d s)]" m res True False, folded s]
      show ?thesis
      proof (cases ?r)
        case (Inl e)
        with step st True have "r = Inl e" by (simp add: Let_def)
        with True Inl sim show ?thesis
          by (subst peel_at_d.simps) (simp add: st s Let_def)
      next
        case (Inr st1)
        obtain s1 rest1 where st1: "st1 = (s1, rest1)" by (cases st1) auto
        from step st True Inr have "f hasher st1 = Some r" by (simp add: Let_def)
        from IH [OF this, rule_format, of "store_to_d m p s1"]
        have "peel_at_d hasher p (store_to_d m p s1, rest1) =
                Some (case r of Inl e \<Rightarrow> Inl e | Inr (s', rest) \<Rightarrow> Inr (store_to_d m p s', rest))"
          by (cases r) (auto simp: st1)
        with True Inr sim show ?thesis
          by (subst peel_at_d.simps) (auto simp: st s st1 Let_def split: sum.splits prod.splits)
      qed
    qed
  qed
qed

lemma peel_at_d_sim:
  "peel_d hasher (load_d m p, res, fin, hc) = Some (Inr (s', res', fin', hc')) \<Longrightarrow>
   peel_at_d hasher p (m, res, fin, hc) = Some (Inr (store_to_d m p s', res', fin', hc'))"
  using peel_at_d_sim_aux [of hasher "(load_d m p, res, fin, hc)" "Inr (s', res', fin', hc')" p]
  by simp

lemma load_d_copy_construct:
  "load_d (fst (copy_construct m this)) (snd (copy_construct m this)) = load_d m this"
  by (simp add: copy_construct_def load_d_def Let_def)

lemma listAll_at_d_sim:
  assumes w: "this < next_free m" "o_buckets (objects m this) < next_free m"
    and l: "listAll_ibd hasher (load_d m this) = Some (Inr (s, r))"
  shows "\<exists>m'. listAll_at_d hasher m this = Some (Inr (m', r))"
proof -
  let ?q = "next_free m"
  define m1 where "m1 = fst (copy_construct m this)"
  have cc: "copy_construct m this = (m1, ?q)" by (simp add: m1_def copy_construct_def Let_def)
  have l1: "load_d m1 ?q = load_d m this" using load_d_copy_construct [of m this] by (simp add: cc)
  from l obtain copy' res fin hc where
    p: "peel_d hasher (load_d m this, [], False, True) = Some (Inr (copy', res, fin, hc))"
    and r: "r = (if \<not> fin \<or> of_nat (length res) \<noteq> count_d (load_d m this) then None else Some res)"
    by (auto simp: listAll_ibd_def split: option.splits sum.splits)
  let ?m2 = "store_to_d m1 ?q copy'"
  from peel_at_d_sim [of hasher m1 ?q, unfolded l1, OF p]
  have pa: "peel_at_d hasher ?q (m1, [], False, True) = Some (Inr (?m2, res, fin, hc))" .
  have "load_d ?m2 this = load_d m this"
    using w by (simp add: load_d_def store_to_d_def m1_def copy_construct_def Let_def)
  then have "listAll_at_d hasher m this = Some (Inr (?m2, r))"
    using pa r by (simp add: listAll_at_d_def cc)
  then show ?thesis by blast
qed

lemma peel_at_d_sim_err:
  "peel_d hasher (load_d m p, res, fin, hc) = Some (Inl e) \<Longrightarrow>
   peel_at_d hasher p (m, res, fin, hc) = Some (Inl e)"
  using peel_at_d_sim_aux [of hasher "(load_d m p, res, fin, hc)" "Inl e" p] by simp

lemma listAll_at_d_sim_err:
  assumes l: "listAll_ibd hasher (load_d m this) = Some (Inl e)"
  shows "listAll_at_d hasher m this = Some (Inl e)"
proof -
  let ?q = "next_free m"
  define m1 where "m1 = fst (copy_construct m this)"
  have cc: "copy_construct m this = (m1, ?q)" by (simp add: m1_def copy_construct_def Let_def)
  have l1: "load_d m1 ?q = load_d m this" using load_d_copy_construct [of m this] by (simp add: cc)
  from l have "peel_d hasher (load_d m this, [], False, True) = Some (Inl e)"
    by (auto simp: listAll_ibd_def split: option.splits sum.splits)
  from peel_at_d_sim_err [of hasher m1 ?q, unfolded l1, OF this]
  show ?thesis by (simp add: listAll_at_d_def cc)
qed

lemma listAll_at_d_result:
  assumes w: "this < next_free m" "o_buckets (objects m this) < next_free m"
    and l: "listAll_at_d hasher m this = Some (Inr (m', r))"
  shows "listAll_ibd hasher (load_d m this) = Some (Inr (load_d m this, r))"
proof -
  obtain x where x: "listAll_ibd hasher (load_d m this) = Some x"
    using listAll_ibd_terminates by blast
  show ?thesis
  proof (cases x)
    case (Inl e)
    with x listAll_at_d_sim_err [of hasher m this e] l show ?thesis by simp
  next
    case (Inr y)
    obtain s r2 where y: "y = (s, r2)" by (cases y) auto
    from x Inr y have s: "s = load_d m this"
      by (auto simp: listAll_ibd_def Let_def split: option.splits sum.splits prod.splits)
    from listAll_at_d_sim [OF w, of hasher s r2] x Inr y l have "r2 = r" by auto
    with x Inr y s show ?thesis by simp
  qed
qed

lemma listAll_at_d_unchanged:
  assumes w: "this < next_free m" "o_buckets (objects m this) < next_free m"
    and l: "listAll_at_d hasher m this = Some (Inr (m', r))"
  shows "load_d m' this = load_d m this"
  using listAll_at_d_frame [OF l] w by (simp add: load_d_def)

section \<open>Claims about construction\<close>

text \<open>
  C5.  The claim: whenever every colliding candidate is eventually followed by a candidate
  that differs from all accepted seeds, the reject-and-redraw loop of the constructor
  terminates with \<open>K\<close> pairwise distinct seeds.  The code does not do this: the flag
  \<^verbatim>\<open>already_exists\<close> is declared outside the \<^verbatim>\<open>do\<close> loop and never reset, so after the
  first collision every later candidate is rejected (lemma \<open>redraw_True\<close>).  With the
  candidates 5, 5, 2, 3, 4, ... and \<open>K = 3\<close> the second seed collides with the first, the
  stream offers fresh candidates ever after, and the constructor never returns.
\<close>

theorem C5_redraw_never_returns_after_collision:
  "InvertibleBloomFilter_ctor 3 10 (\<lambda>n. if n < 2 then 5 else of_nat n)
     = (None :: (64 word, 16 word) InvertibleBloomFilter option)"
  by (simp add: InvertibleBloomFilter_ctor_def numeral_3_eq_3 redraw_False)

text \<open>
  C1, as stated, fails: on the instance constructed with \<open>directory_size = 0\<close> and the
  default \<open>K = 3\<close>, \<^verbatim>\<open>contains\<close> does not return \<^verbatim>\<open>not_found\<close>; its first call of
  \<^verbatim>\<open>hash_index\<close> takes a remainder modulo 0.
\<close>

theorem C1_counterexample:
  "InvertibleBloomFilter_ctor 3 0 of_nat
     = Some (\<lparr>seeds = [0, 1, 2], buckets = [], count = 0\<rparr> :: (64 word, 16 word) InvertibleBloomFilter)
   \<and> contains_ibf Murmur3Finalizer
        (\<lparr>seeds = [0, 1, 2], buckets = [], count = 0\<rparr> :: (64 word, 16 word) InvertibleBloomFilter) 1337
      = Inl DivisionByZero"
  by (simp add: InvertibleBloomFilter_ctor_def numeral_3_eq_3 redraw_False contains_ibf_def hash_index_def)

text \<open>
  C1, amended.  For every instance constructed with \<open>directory_size = 0\<close>, of either class,
  \<^verbatim>\<open>size()\<close> and \<^verbatim>\<open>directory_size()\<close> return 0.  \<^verbatim>\<open>contains(k)\<close> returns \<^verbatim>\<open>not_found\<close>
  only when there are no seeds (\<open>K = 0\<close>); for \<open>K \<ge> 1\<close> it has no result, because
  \<^verbatim>\<open>hash_index\<close> computes \<^verbatim>\<open>hash % 0\<close>.
\<close>

theorem C1_empty_directory:
  "(InvertibleBloomFilter_ctor K 0 dist = Some s \<longrightarrow>
      size_ibf s = 0 \<and> directory_size s = 0
      \<and> contains_ibf hasher s key = (if K = 0 then Inr not_found else Inl DivisionByZero))
   \<and> (InvertibleBloomDictionary_ctor K 0 dist = Some d \<longrightarrow>
      size_ibd d = 0 \<and> directory_size_d d = 0
      \<and> contains_ibd hasher' d key' = (if K = 0 then Inr not_found else Inl DivisionByZero))"
proof (intro conjI impI)
  assume c: "InvertibleBloomFilter_ctor K 0 dist = Some s"
  then obtain sds where sl: "seed_loop dist K 0 [] = Some sds"
    and s: "s = \<lparr>seeds = sds, buckets = [], count = 0\<rparr>"
    by (auto simp: InvertibleBloomFilter_ctor_def split: option.splits)
  from seed_loop_length [OF sl] have len: "length sds = K" by simp
  show "size_ibf s = 0" "directory_size s = 0"
    using s by (simp_all add: size_ibf_def directory_size_def)
  show "contains_ibf hasher s key = (if K = 0 then Inr not_found else Inl DivisionByZero)"
  proof (cases "K = 0")
    case True
    with len s show ?thesis by (simp add: contains_ibf_def)
  next
    case False
    with len have "sds \<noteq> []" by auto
    with False s show ?thesis by (simp add: contains_ibf_def contains_loop_empty)
  qed
next
  assume c: "InvertibleBloomDictionary_ctor K 0 dist = Some d"
  then obtain sds where sl: "seed_loop dist K 0 [] = Some sds"
    and s: "d = \<lparr>seeds_d = sds, buckets_d = [], count_d = 0\<rparr>"
    by (auto simp: InvertibleBloomDictionary_ctor_def split: option.splits)
  from seed_loop_length [OF sl] have len: "length sds = K" by simp
  show "size_ibd d = 0" "directory_size_d d = 0"
    using s by (simp_all add: size_ibd_def directory_size_d_def)
  show "contains_ibd hasher' d key' = (if K = 0 then Inr not_found else Inl DivisionByZero)"
  proof (cases "K = 0")
    case True
    with len s show ?thesis by (simp add: contains_ibd_def)
  next
    case False
    with len have "sds \<noteq> []" by auto
    with False s show ?thesis by (simp add: contains_ibd_def contains_loop_d_empty)
  qed
qed

theorem C1_empty_directory_witness:
  "size_ibf (\<lparr>seeds = [0, 1, 2], buckets = [], count = 0\<rparr> :: (64 word, 16 word) InvertibleBloomFilter) = 0
   \<and> contains_ibf Murmur3Finalizer
        (\<lparr>seeds = [0, 1, 2], buckets = [], count = 0\<rparr> :: (64 word, 16 word) InvertibleBloomFilter) 1337
      = Inl DivisionByZero
   \<and> size_ibd (\<lparr>seeds_d = [0, 1, 2], buckets_d = [], count_d = 0\<rparr>
                 :: (64 word, 32 word, 16 word) InvertibleBloomDictionary) = 0
   \<and> contains_ibd Murmur3Finalizer
        (\<lparr>seeds_d = [0, 1, 2], buckets_d = [], count_d = 0\<rparr>
           :: (64 word, 32 word, 16 word) InvertibleBloomDictionary) 1337
      = Inl DivisionByZero"
proof -
  have a: "InvertibleBloomFilter_ctor 3 0 of_nat
     = Some (\<lparr>seeds = [0, 1, 2], buckets = [], count = 0\<rparr> :: (64 word, 16 word) InvertibleBloomFilter)"
    by (simp add: InvertibleBloomFilter_ctor_def numeral_3_eq_3 redraw_False)
  have b: "InvertibleBloomDictionary_ctor 3 0 of_nat
     = Some (\<lparr>seeds_d = [0, 1, 2], buckets_d = [], count_d = 0\<rparr>
               :: (64 word, 32 word, 16 word) InvertibleBloomDictionary)"
    by (simp add: InvertibleBloomDictionary_ctor_def numeral_3_eq_3 redraw_False)
  from C1_empty_directory [THEN conjunct1, rule_format, OF a, of Murmur3Finalizer 1337]
       C1_empty_directory [THEN conjunct2, rule_format, OF b, of Murmur3Finalizer 1337]
  show ?thesis by simp
qed


section \<open>Claims about single operations\<close>

lemma roundtrip_ibf:
  fixes s :: "('k::len word, 'c::len word) InvertibleBloomFilter"
  assumes "seeds s \<noteq> []" "0 < n" "fresh n s"
  shows "\<exists>s1. insert_ibf hasher s key = Inr s1 \<and> remove_ibf hasher s1 key = Inr (True, s)"
proof -
  let ?P = "probes hasher n (seeds s) key"
  let ?s1 = "s\<lparr>buckets := apply_at ?P (add_key key) (buckets s), count := count s + 1\<rparr>"
  have bs: "buckets s = replicate n \<lparr>cumulative_key = 0, bcount = 0\<rparr>" and c0: "count s = 0"
    using assms(3) by (simp_all add: fresh_def)
  have ne: "buckets s \<noteq> []" using bs assms(2) by auto
  have len: "length (buckets s) = n" using bs by simp
  have ins: "insert_ibf hasher s key = Inr ?s1"
    using insert_ibf_char [OF ne, of hasher key] len by simp
  have ne1: "buckets ?s1 \<noteq> []" using ne by simp
  obtain seed rest where sds: "seeds s = seed # rest" using assms(1) by (cases "seeds s") auto
  have b1: "buckets ?s1 ! i = \<lparr>cumulative_key = key, bcount = 1\<rparr>" if "i \<in> ?P" for i
    using that probes_less [OF assms(2) that] bs by (simp add: add_key_def)
  have inP: "slot hasher n key seed \<in> ?P"
    using sds by (simp add: probes_def)
  have "find (\<lambda>sd. bcount (buckets ?s1 ! slot hasher (length (buckets ?s1)) key sd) = 1) (seeds ?s1)
          = Some seed"
    using b1 [OF inP] sds len by simp
  then have "contains_ibf hasher ?s1 key = Inr exists"
    using b1 [OF inP] sds len
    unfolding contains_ibf_char [OF ne1] by simp
  moreover have "\<forall>i \<in> ?P. bcount (buckets ?s1 ! i) \<noteq> 0"
    using b1 by simp
  moreover have "?s1\<lparr>buckets := apply_at ?P (sub_key key) (buckets ?s1), count := count ?s1 - 1\<rparr> = s"
    by (simp add: apply_at_inverse)
  ultimately have "remove_ibf hasher ?s1 key = Inr (True, s)"
    using remove_ibf_char [OF ne1, of hasher key] len by simp
  with ins show ?thesis by blast
qed

lemma roundtrip_ibd:
  fixes s :: "('k::len word, 'v::len word, 'c::len word) InvertibleBloomDictionary"
  assumes "seeds_d s \<noteq> []" "0 < n" "fresh_d n s"
  shows "\<exists>s1. insert_ibd hasher s key val = Inr s1 \<and> remove_ibd hasher s1 key = Inr (True, s)"
proof -
  let ?P = "probes hasher n (seeds_d s) key"
  let ?s1 = "s\<lparr>buckets_d := apply_at ?P (add_kv key val) (buckets_d s), count_d := count_d s + 1\<rparr>"
  have bs: "buckets_d s = replicate n \<lparr>cumulative_key_d = 0, cumulative_value = 0, bcount_d = 0\<rparr>"
    and c0: "count_d s = 0"
    using assms(3) by (simp_all add: fresh_d_def)
  have ne: "buckets_d s \<noteq> []" using bs assms(2) by auto
  have len: "length (buckets_d s) = n" using bs by simp
  have ins: "insert_ibd hasher s key val = Inr ?s1"
    using insert_ibd_char [OF ne, of hasher key val] len by simp
  have ne1: "buckets_d ?s1 \<noteq> []" using ne by simp
  obtain seed rest where sds: "seeds_d s = seed # rest" using assms(1) by (cases "seeds_d s") auto
  have b1: "buckets_d ?s1 ! i = \<lparr>cumulative_key_d = key, cumulative_value = val, bcount_d = 1\<rparr>"
    if "i \<in> ?P" for i
    using that probes_less [OF assms(2) that] bs by (simp add: add_kv_def)
  have inP: "slot hasher n key seed \<in> ?P"
    using sds by (simp add: probes_def)
  have "find (\<lambda>sd. bcount_d (buckets_d ?s1 ! slot hasher (length (buckets_d ?s1)) key sd) = 1)
             (seeds_d ?s1) = Some seed"
    using b1 [OF inP] sds len by simp
  then have "get_ibd hasher ?s1 key = Inr (Some val)"
    using b1 [OF inP] sds len
    unfolding get_ibd_char [OF ne1] by simp
  moreover have "\<forall>i \<in> ?P. bcount_d (buckets_d ?s1 ! i) \<noteq> 0"
    using b1 by simp
  moreover have "?s1\<lparr>buckets_d := apply_at ?P (sub_kv key val) (buckets_d ?s1),
                     count_d := count_d ?s1 - 1\<rparr> = s"
    by (simp add: apply_at_inverse)
  ultimately have "remove_ibd hasher ?s1 key = Inr (True, s)"
    using remove_ibd_char [OF ne1, of hasher key] len by simp
  with ins show ?thesis by blast
qed

text \<open>
  C7.  Insert/remove round trip, for both classes: on a fresh structure with a non-empty
  directory and at least one seed (\<open>K \<ge> 1\<close>), \<^verbatim>\<open>insert(k)\<close> followed at once by
  \<^verbatim>\<open>remove(k)\<close> returns true and gives back the structure as it was before the insertion:
  every bucket's count and cumulative key (and cumulative value), and the logical count.
\<close>

theorem C7_insert_remove_roundtrip:
  fixes s :: "('k::len word, 'c::len word) InvertibleBloomFilter"
    and d :: "('k'::len word, 'v::len word, 'c'::len word) InvertibleBloomDictionary"
  shows "(seeds s \<noteq> [] \<and> 0 < n \<and> fresh n s \<longrightarrow>
           (\<exists>s1. insert_ibf hasher s key = Inr s1 \<and> remove_ibf hasher s1 key = Inr (True, s)))
       \<and> (seeds_d d \<noteq> [] \<and> 0 < m \<and> fresh_d m d \<longrightarrow>
           (\<exists>d1. insert_ibd hasher' d key' val = Inr d1 \<and> remove_ibd hasher' d1 key' = Inr (True, d)))"
  using roundtrip_ibf [of s n hasher key] roundtrip_ibd [of d m hasher' key' val] by blast


theorem C7_insert_remove_roundtrip_witness:
  "(\<exists>s1. insert_ibf Murmur3Finalizer example_fresh 1337 = Inr s1
         \<and> remove_ibf Murmur3Finalizer s1 1337 = Inr (True, example_fresh))
   \<and> (\<exists>d1. insert_ibd Murmur3Finalizer example_fresh_d 1337 42 = Inr d1
         \<and> remove_ibd Murmur3Finalizer d1 1337 = Inr (True, example_fresh_d))"
proof -
  have a: "seeds example_fresh \<noteq> [] \<and> 0 < (10::nat) \<and> fresh 10 example_fresh"
    by (simp add: fresh_def example_fresh_def)
  have b: "seeds_d example_fresh_d \<noteq> [] \<and> 0 < (10::nat) \<and> fresh_d 10 example_fresh_d"
    by (simp add: fresh_d_def example_fresh_d_def)
  from C7_insert_remove_roundtrip [THEN conjunct1, rule_format, OF a]
       C7_insert_remove_roundtrip [THEN conjunct2, rule_format, OF b]
  show ?thesis by blast
qed

text \<open>
  C4.  Remove is atomic on failure, for both classes: on a non-empty directory, a call of
  \<^verbatim>\<open>remove(k)\<close> that returns false leaves the whole structure as it was, and \<^verbatim>\<open>remove(k)\<close>
  returns false exactly when \<^verbatim>\<open>contains(k)\<close> is not \<^verbatim>\<open>exists\<close> (in the dictionary: exactly
  when \<^verbatim>\<open>get(k)\<close> is empty).
\<close>

theorem C4_remove_atomic_on_failure:
  fixes s :: "('k::len word, 'c::len word) InvertibleBloomFilter"
    and d :: "('k'::len word, 'v::len word, 'c'::len word) InvertibleBloomDictionary"
  shows "(buckets s \<noteq> [] \<longrightarrow>
            (\<forall>s'. remove_ibf hasher s key = Inr (False, s') \<longrightarrow> s' = s)
          \<and> ((\<exists>s'. remove_ibf hasher s key = Inr (False, s'))
               \<longleftrightarrow> contains_ibf hasher s key \<noteq> Inr exists))
       \<and> (buckets_d d \<noteq> [] \<longrightarrow>
            (\<forall>d'. remove_ibd hasher' d key' = Inr (False, d') \<longrightarrow> d' = d)
          \<and> ((\<exists>d'. remove_ibd hasher' d key' = Inr (False, d'))
               \<longleftrightarrow> get_ibd hasher' d key' = Inr None))"
proof (intro conjI impI)
  assume ne: "buckets s \<noteq> []"
  show "\<forall>s'. remove_ibf hasher s key = Inr (False, s') \<longrightarrow> s' = s"
    using ne by (auto simp: remove_ibf_char split: if_splits)
  show "(\<exists>s'. remove_ibf hasher s key = Inr (False, s')) \<longleftrightarrow> contains_ibf hasher s key \<noteq> Inr exists"
    using ne by (auto simp: remove_ibf_char split: if_splits)
next
  assume ne: "buckets_d d \<noteq> []"
  show "\<forall>d'. remove_ibd hasher' d key' = Inr (False, d') \<longrightarrow> d' = d"
    using ne by (auto simp: remove_ibd_char split: if_splits sum.splits option.splits)
  show "(\<exists>d'. remove_ibd hasher' d key' = Inr (False, d')) \<longleftrightarrow> get_ibd hasher' d key' = Inr None"
    using ne get_ibd_total [OF ne, of hasher' key']
    by (auto simp: remove_ibd_char split: if_splits sum.splits option.splits)
qed


theorem C4_remove_atomic_on_failure_witness:
  "remove_ibf Murmur3Finalizer example_fresh 1337 = Inr (False, example_fresh)
   \<and> contains_ibf Murmur3Finalizer example_fresh 1337 = Inr not_found
   \<and> remove_ibd Murmur3Finalizer example_fresh_d 1337 = Inr (False, example_fresh_d)
   \<and> get_ibd Murmur3Finalizer example_fresh_d 1337 = Inr None"
proof -
  have a: "buckets example_fresh \<noteq> []" by (simp add: example_fresh_def)
  have b: "buckets_d example_fresh_d \<noteq> []" by (simp add: example_fresh_d_def)
  have c: "contains_ibf Murmur3Finalizer example_fresh 1337 = Inr not_found"
    by (simp add: example_fresh_def contains_ibf_def hash_index_def m1337 Let_def)
  have g: "get_ibd Murmur3Finalizer example_fresh_d 1337 = Inr None"
    by (simp add: example_fresh_d_def get_ibd_def hash_index_d_def m1337 Let_def)
  from C4_remove_atomic_on_failure [THEN conjunct1, rule_format, OF a, of Murmur3Finalizer 1337] c
  have "remove_ibf Murmur3Finalizer example_fresh 1337 = Inr (False, example_fresh)"
    by auto
  moreover
  from C4_remove_atomic_on_failure [THEN conjunct2, rule_format, OF b, of Murmur3Finalizer 1337] g
  have "remove_ibd Murmur3Finalizer example_fresh_d 1337 = Inr (False, example_fresh_d)"
    by auto
  ultimately show ?thesis using c g by simp
qed

lemma example_memory_load: "load example_memory 0 = example_two"
  by (simp add: load_def example_memory_def example_two_def)

lemma example_memory_d_load: "load_d example_memory_d 0 = example_two_d"
  by (simp add: load_d_def example_memory_d_def example_two_d_def)

lemma example_memory_remove:
  "\<exists>m'. remove_at Murmur3Finalizer example_memory 0 1337 = Inr (True, m')
        \<and> load m' 0 \<noteq> load example_memory 0"
  by (simp add: remove_at_def example_memory_load)
     (simp add: example_two_def remove_ibf_def contains_ibf_def hash_index_def m1337 Let_def)

lemma example_memory_alias:
  "\<exists>m'. remove_at Murmur3Finalizer example_memory 1 1337 = Inr (True, m')
        \<and> load m' 0 \<noteq> load example_memory 0"
proof -
  have l: "load example_memory 1 = example_two"
    by (simp add: load_def example_memory_def example_two_def)
  obtain s' where r: "remove_ibf Murmur3Finalizer example_two 1337 = Inr (True, s')"
    and b: "bcount (buckets s' ! 4) = 0"
    by (simp add: example_two_def remove_ibf_def contains_ibf_def hash_index_def m1337 Let_def)
  have "bcount (buckets (load (store_to example_memory 1 s') 0) ! 4) = 0"
    using b by (simp add: load_def store_to_def example_memory_def)
  moreover have "bcount (buckets (load example_memory 0) ! 4) = 1"
    by (simp add: example_memory_load example_two_def)
  ultimately have "load (store_to example_memory 1 s') 0 \<noteq> load example_memory 0" by auto
  moreover have "remove_at Murmur3Finalizer example_memory 1 1337
                   = Inr (True, store_to example_memory 1 s')"
    unfolding remove_at_def l r by simp
  ultimately show ?thesis by blast
qed

text \<open>
  C8.  Decode frame property, for both classes.  The structure is an object in memory and
  \<^verbatim>\<open>listAll\<close> is called on its address; the working copy is a second object, made by the
  copy constructor, with a block of its own for its buckets, and every \<^verbatim>\<open>remove\<close> of the
  decode is called on the copy (the lemma \<open>example_memory_remove\<close> shows such a call
  changing the object it is called on, and \<open>example_memory_alias\<close> shows it changing
  another object whose buckets are the same block, so the property rests on the copy
  having a block of its own).  Whenever \<^verbatim>\<open>listAll\<close> returns, with a result or
  with failure, the caller's structure is unchanged, every bucket and the count; more
  than that, no object and no block that existed before the call has changed.  The call
  returns what \<open>listAll_ibf\<close> (\<open>listAll_ibd\<close>) computes from the value of the structure.
  The hypotheses say that the object and its block lie in the allocated part of the
  memory.
\<close>

theorem C8_listAll_frame:
  fixes m :: "('k::len word, 'c::len word) Bucket Memory"
    and md :: "('k'::len word, 'v::len word, 'c'::len word) Bucket_d Memory"
  shows "(this < next_free m \<and> o_buckets (objects m this) < next_free m
            \<and> listAll_at hasher m this = Some (Inr (m', r)) \<longrightarrow>
            load m' this = load m this
            \<and> (\<forall>p < next_free m. objects m' p = objects m p \<and> blocks m' p = blocks m p)
            \<and> listAll_ibf hasher (load m this) = Some (Inr (load m this, r)))
       \<and> (this' < next_free md \<and> o_buckets (objects md this') < next_free md
            \<and> listAll_at_d hasher' md this' = Some (Inr (md', r')) \<longrightarrow>
            load_d md' this' = load_d md this'
            \<and> (\<forall>p < next_free md. objects md' p = objects md p \<and> blocks md' p = blocks md p)
            \<and> listAll_ibd hasher' (load_d md this') = Some (Inr (load_d md this', r')))"
proof (intro conjI impI)
  assume a: "this < next_free m \<and> o_buckets (objects m this) < next_free m
               \<and> listAll_at hasher m this = Some (Inr (m', r))"
  then have w: "this < next_free m" "o_buckets (objects m this) < next_free m"
    and l: "listAll_at hasher m this = Some (Inr (m', r))" by simp_all
  show "load m' this = load m this" by (rule listAll_at_unchanged [OF w l])
  show "\<forall>p < next_free m. objects m' p = objects m p \<and> blocks m' p = blocks m p"
    by (rule listAll_at_frame [OF l])
  show "listAll_ibf hasher (load m this) = Some (Inr (load m this, r))"
    by (rule listAll_at_result [OF w l])
next
  assume a: "this' < next_free md \<and> o_buckets (objects md this') < next_free md
               \<and> listAll_at_d hasher' md this' = Some (Inr (md', r'))"
  then have w: "this' < next_free md" "o_buckets (objects md this') < next_free md"
    and l: "listAll_at_d hasher' md this' = Some (Inr (md', r'))" by simp_all
  show "load_d md' this' = load_d md this'" by (rule listAll_at_d_unchanged [OF w l])
  show "\<forall>p < next_free md. objects md' p = objects md p \<and> blocks md' p = blocks md p"
    by (rule listAll_at_d_frame [OF l])
  show "listAll_ibd hasher' (load_d md this') = Some (Inr (load_d md this', r'))"
    by (rule listAll_at_d_result [OF w l])
qed

theorem C8_listAll_frame_witness:
  "(\<exists>m'. listAll_at Murmur3Finalizer example_memory 0 = Some (Inr (m', Some {1337, 86}))
          \<and> load m' 0 = example_two)
   \<and> (\<exists>md'. listAll_at_d Murmur3Finalizer example_memory_d 0
               = Some (Inr (md', Some [(1337, 42), (86, 89)]))
          \<and> load_d md' 0 = example_two_d)"
proof -
  have w: "(0::nat) < next_free example_memory"
    "o_buckets (objects example_memory 0) < next_free example_memory"
    by (simp_all add: example_memory_def)
  have "listAll_ibf Murmur3Finalizer (load example_memory 0)
          = Some (Inr (example_two, Some {1337, 86}))"
    using example_two_listAll by (simp add: example_memory_load)
  from listAll_at_sim [OF w this] obtain m' where
    l: "listAll_at Murmur3Finalizer example_memory 0 = Some (Inr (m', Some {1337, 86}))" by blast
  have wd: "(0::nat) < next_free example_memory_d"
    "o_buckets (objects example_memory_d 0) < next_free example_memory_d"
    by (simp_all add: example_memory_d_def)
  have "listAll_ibd Murmur3Finalizer (load_d example_memory_d 0)
          = Some (Inr (example_two_d, Some [(1337, 42), (86, 89)]))"
    using example_two_d_listAll by (simp add: example_memory_d_load)
  from listAll_at_d_sim [OF wd this] obtain md' where
    ld: "listAll_at_d Murmur3Finalizer example_memory_d 0
           = Some (Inr (md', Some [(1337, 42), (86, 89)]))" by blast
  from C8_listAll_frame [THEN conjunct1, rule_format, of 0 example_memory Murmur3Finalizer m'
         "Some {1337, 86}"] w l
  have "load m' 0 = example_two" by (simp add: example_memory_load)
  moreover
  from C8_listAll_frame [THEN conjunct2, rule_format, of 0 example_memory_d Murmur3Finalizer md'
         "Some [(1337, 42), (86, 89)]"] wd ld
  have "load_d md' 0 = example_two_d" by (simp add: example_memory_d_load)
  ultimately show ?thesis using l ld by blast
qed

lemma double_insert:
  fixes s :: "('k::len word, 'c::len word) InvertibleBloomFilter"
  assumes "seeds s \<noteq> []" "0 < n" "fresh n s" "1 < LENGTH('c)"
  shows "\<exists>s1 s2. insert_ibf hasher s key = Inr s1 \<and> insert_ibf hasher s1 key = Inr s2
           \<and> size_ibf s2 = 2
           \<and> (\<forall>i \<in> probes hasher n (seeds s) key.
                 buckets s2 ! i = \<lparr>cumulative_key = 0, bcount = 2\<rparr>)
           \<and> contains_ibf hasher s2 key = Inr might_exist
           \<and> remove_ibf hasher s2 key = Inr (False, s2)
           \<and> listAll_ibf hasher s2 = Some (Inr (s2, None))"
proof -
  let ?P = "probes hasher n (seeds s) key"
  let ?s1 = "s\<lparr>buckets := apply_at ?P (add_key key) (buckets s), count := count s + 1\<rparr>"
  let ?s2 = "?s1\<lparr>buckets := apply_at ?P (add_key key) (buckets ?s1), count := count ?s1 + 1\<rparr>"
  have bs: "buckets s = replicate n \<lparr>cumulative_key = 0, bcount = 0\<rparr>" and c0: "count s = 0"
    using assms(3) by (simp_all add: fresh_def)
  have ne: "buckets s \<noteq> []" using bs assms(2) by auto
  have len: "length (buckets s) = n" using bs by simp
  have ins1: "insert_ibf hasher s key = Inr ?s1"
    using insert_ibf_char [OF ne, of hasher key] len by simp
  have ne1: "buckets ?s1 \<noteq> []" using ne by simp
  have ins2: "insert_ibf hasher ?s1 key = Inr ?s2"
    using insert_ibf_char [OF ne1, of hasher key] len by simp
  have ne2: "buckets ?s2 \<noteq> []" using ne by simp
  have len2: "length (buckets ?s2) = n" using len by simp
  have sz: "size_ibf ?s2 = 2" using c0 by (simp add: size_ibf_def)
  have inP: "buckets ?s2 ! i = \<lparr>cumulative_key = 0, bcount = 2\<rparr>" if "i \<in> ?P" for i
    using that probes_less [OF assms(2) that] bs by (simp add: add_key_def)
  have outP: "buckets ?s2 ! i = \<lparr>cumulative_key = 0, bcount = 0\<rparr>" if "i \<notin> ?P" "i < n" for i
    using that bs by simp
  have no1: "bcount (buckets ?s2 ! i) \<noteq> 1" if "i < n" for i
    using inP [of i] outP [of i] that two_word [OF assms(4)] by (cases "i \<in> ?P") auto
  obtain seed rest where sds: "seeds s = seed # rest" using assms(1) by (cases "seeds s") auto
  have seedP: "slot hasher n key seed \<in> ?P" using sds by (simp add: probes_def)
  have "find (\<lambda>sd. bcount (buckets ?s2 ! slot hasher (length (buckets ?s2)) key sd) = 1) (seeds ?s2)
          = None"
    unfolding find_None_iff len2 using no1 slot_less [OF assms(2)] by blast
  moreover have "\<exists>sd \<in> set (seeds ?s2). 1 < bcount (buckets ?s2 ! slot hasher (length (buckets ?s2)) key sd)"
    unfolding len2 using inP [OF seedP] sds two_word [OF assms(4)] by auto
  ultimately have con: "contains_ibf hasher ?s2 key = Inr might_exist"
    unfolding contains_ibf_char [OF ne2] by simp
  have rem: "remove_ibf hasher ?s2 key = Inr (False, ?s2)"
    using remove_ibf_char [OF ne2, of hasher key] con by simp
  have "\<forall>i \<in> set [0..<length (buckets ?s2)]. bcount (buckets ?s2 ! i) \<noteq> 1"
    unfolding len2 using no1 by simp
  from scan_no_singleton [OF this]
  have sc: "scan hasher [0..<length (buckets ?s2)] (?s2, {}, True, False)
         = Inr (?s2, {}, \<forall>i \<in> set [0..<length (buckets ?s2)]. bcount (buckets ?s2 ! i) = 0, False)"
    by simp
  have "\<not> (\<forall>i \<in> set [0..<length (buckets ?s2)]. bcount (buckets ?s2 ! i) = 0)"
    unfolding len2 using inP [OF seedP] probes_less [OF assms(2) seedP] two_word [OF assms(4)]
    by (auto intro!: bexI [of _ "slot hasher n key seed"])
  then have sc': "scan hasher [0..<length (buckets ?s2)] (?s2, {}, True, False) = Inr (?s2, {}, False, False)"
    using sc by simp
  have "peel hasher (?s2, {}, False, True) = Some (Inr (?s2, {}, False, False))"
    using sc' peel_step [of False True hasher ?s2 "{}"] by (simp add: peel_stop)
  then have la: "listAll_ibf hasher ?s2 = Some (Inr (?s2, None))"
    by (simp add: listAll_ibf_def)
  show ?thesis
    using ins1 ins2 sz inP con rem la by blast
qed

text \<open>
  C10.  Duplicate insertion: after the same key is inserted twice into a fresh structure
  with a non-empty directory and at least one seed, \<^verbatim>\<open>size()\<close> is 2, each probe bucket of
  the key holds the count 2 and the cumulative key 0, \<^verbatim>\<open>contains(k)\<close> is \<^verbatim>\<open>might_exist\<close>,
  \<^verbatim>\<open>remove(k)\<close> returns false and changes nothing, and \<^verbatim>\<open>listAll()\<close> fails.  The counter
  type has at least two bits, as every integer type of the language has.
\<close>

theorem C10_duplicate_insert:
  fixes s :: "('k::len word, 'c::len word) InvertibleBloomFilter"
  assumes "seeds s \<noteq> []" "0 < n" "fresh n s" "1 < LENGTH('c)"
  shows "\<exists>s1 s2. insert_ibf hasher s key = Inr s1 \<and> insert_ibf hasher s1 key = Inr s2
           \<and> size_ibf s2 = 2
           \<and> (\<forall>i \<in> probes hasher n (seeds s) key.
                 buckets s2 ! i = \<lparr>cumulative_key = 0, bcount = 2\<rparr>)
           \<and> contains_ibf hasher s2 key = Inr might_exist
           \<and> remove_ibf hasher s2 key = Inr (False, s2)
           \<and> listAll_ibf hasher s2 = Some (Inr (s2, None))"
  using assms by (rule double_insert)

theorem C10_duplicate_insert_witness:
  "\<exists>s1 s2. insert_ibf Murmur3Finalizer example_fresh 1337 = Inr s1
           \<and> insert_ibf Murmur3Finalizer s1 1337 = Inr s2
           \<and> size_ibf s2 = 2
           \<and> (\<forall>i \<in> probes Murmur3Finalizer 10 (seeds example_fresh) 1337.
                 buckets s2 ! i = \<lparr>cumulative_key = 0, bcount = 2\<rparr>)
           \<and> contains_ibf Murmur3Finalizer s2 1337 = Inr might_exist
           \<and> remove_ibf Murmur3Finalizer s2 1337 = Inr (False, s2)
           \<and> listAll_ibf Murmur3Finalizer s2 = Some (Inr (s2, None))"
proof -
  have a: "seeds example_fresh \<noteq> []" by (simp add: example_fresh_def)
  have b: "fresh 10 example_fresh" by (simp add: fresh_def example_fresh_def)
  have c: "1 < LENGTH(16)" by simp
  show ?thesis
    by (rule C10_duplicate_insert [OF a _ b c]) simp
qed


section \<open>Claim about termination of decoding\<close>

lemma example_three_scan:
  "scan Murmur3Finalizer [0..<length (buckets example_three)] (example_three, {}, True, False)
     = Inr (example_three\<lparr>buckets := (buckets example_three)
                              [7 := \<lparr>cumulative_key = 0, bcount = 0\<rparr>,
                               6 := \<lparr>cumulative_key = 1336, bcount = 2\<rparr>,
                               5 := \<lparr>cumulative_key = 1336, bcount = 2\<rparr>],
                           count := 2\<rparr>,
            {86}, False, True)"
  by (simp add: example_three_def upt10 remove_ibf_def contains_ibf_def hash_index_def m86 Let_def)

lemma example_stale_scan:
  "scan identity_hash [0..<length (buckets example_stale)] (example_stale, {}, True, False)
     = Inr (example_stale_after, {4}, False, True)"
  by (simp add: example_stale_def example_stale_after_def upt10 remove_ibf_def contains_ibf_def
        hash_index_def identity_hash_def Let_def)
     (simp add: list_eq_iff_nth_eq nth_list_update)

lemma example_three_insert: "insert_ibf Murmur3Finalizer example_two 1 = Inr example_three"
  by (simp add: example_two_def example_three_def insert_ibf_def hash_index_def m1 Let_def)
     (simp add: list_eq_iff_nth_eq nth_list_update)

lemma example_three_reachable: "reachable Murmur3Finalizer example_three [1, 86, 1337]"
proof (rule reachable_insert [OF example_two_reachable _ example_three_insert])
  show "\<forall>i \<in> probes Murmur3Finalizer (length (buckets example_two)) (seeds example_two) 1.
          bcount (buckets example_two ! i) \<noteq> - 1"
    by (simp add: probes_def slot_def example_two_def m1)
qed

text \<open>
  C9, as stated, fails in its second half.  On the structure \<open>example_stale\<close> the first
  scan of \<^verbatim>\<open>listAll\<close> finds the key 4 alone in the bucket 4 and removes it, and finds two
  keys in the bucket 9: it ends with \<^verbatim>\<open>finished\<close> false and \<^verbatim>\<open>has_changed\<close> true, so the loop
  does not exit, and the number of logically present keys of the working copy, its
  \<^verbatim>\<open>count\<close>, has gone from 0 to \<open>2 ^ 64 - 1\<close>: it has not been reduced.
\<close>

theorem C9_counterexample:
  "scan identity_hash [0..<length (buckets example_stale)] (example_stale, {}, True, False)
     = Inr (example_stale_after, {4}, False, True)
   \<and> unat (count example_stale) = 0
   \<and> unat (count example_stale_after) = 18446744073709551615
   \<and> unat (count example_stale) < unat (count example_stale_after)"
  using example_stale_scan by (simp add: example_stale_def example_stale_after_def)

text \<open>
  C9, amended.  \<^verbatim>\<open>listAll\<close> terminates on every structure, of either class: whatever the
  buckets, the seeds and the logical count hold, the call returns (with a result, with
  failure, or by stopping at a failed assertion, the assertions being enabled).  What a
  full scan after which the loop goes on strictly reduces is the total of the bucket
  counters of the working copy; its logical count is decremented \<open>j\<close> times, with
  \<open>1 \<le> j \<le> directory_size()\<close>, modulo \<open>2 ^ 64\<close>.  On a working copy that is reachable (no
  bucket counter has overflowed) and holds fewer than \<open>2 ^ 64\<close> keys, such a scan leaves a
  reachable structure with strictly fewer keys, and the logical count, which is then the
  number of present keys, is strictly reduced.
\<close>

theorem C9_listAll_terminates:
  "(\<exists>r. listAll_ibf hasher s = Some r)
   \<and> (\<exists>r. listAll_ibd hasher' d = Some r)
   \<and> (scan hasher [0..<length (buckets copy)] (copy, res, True, False)
          = Inr (copy', res', finished, has_changed)
        \<longrightarrow> (finished \<or> \<not> has_changed)
            \<or> (occupancy copy' < occupancy copy
                \<and> (\<exists>j. 0 < j \<and> j \<le> length (buckets copy)
                       \<and> count copy' = count copy - of_nat j)))
   \<and> (reachable hasher copy ks \<and> length ks < 2 ^ 64
        \<and> scan hasher [0..<length (buckets copy)] (copy, res, True, False)
            = Inr (copy', res', finished, has_changed)
        \<longrightarrow> (finished \<or> \<not> has_changed)
            \<or> (\<exists>ks'. reachable hasher copy' ks' \<and> length ks' < length ks
                     \<and> unat (count copy') = length ks' \<and> unat (count copy) = length ks))"
proof (intro conjI impI)
  show "\<exists>r. listAll_ibf hasher s = Some r" by (rule listAll_ibf_terminates)
  show "\<exists>r. listAll_ibd hasher' d = Some r" by (rule listAll_ibd_terminates)
next
  assume sc: "scan hasher [0..<length (buckets copy)] (copy, res, True, False)
                = Inr (copy', res', finished, has_changed)"
  have "\<forall>i \<in> set [0..<length (buckets copy)]. i < length (buckets copy)" by simp
  from scan_progress [OF sc this]
  show "(finished \<or> \<not> has_changed)
            \<or> (occupancy copy' < occupancy copy
                \<and> (\<exists>j. 0 < j \<and> j \<le> length (buckets copy)
                       \<and> count copy' = count copy - of_nat j))"
    by auto
next
  assume a: "reachable hasher copy ks \<and> length ks < 2 ^ 64
        \<and> scan hasher [0..<length (buckets copy)] (copy, res, True, False)
            = Inr (copy', res', finished, has_changed)"
  then have r: "reachable hasher copy ks" and n: "length ks < 2 ^ 64"
    and sc: "scan hasher [0..<length (buckets copy)] (copy, res, True, False)
            = Inr (copy', res', finished, has_changed)" by simp_all
  have "\<forall>i \<in> set [0..<length (buckets copy)]. i < length (buckets copy)" by simp
  from scan_reachable [OF sc this r] obtain ks' where
    r': "reachable hasher copy' ks'" and le: "length ks' \<le> length ks"
    and lt: "has_changed \<longrightarrow> length ks' < length ks" by auto
  from le n have n': "length ks' < 2 ^ 64" by simp
  show "(finished \<or> \<not> has_changed)
            \<or> (\<exists>ks'. reachable hasher copy' ks' \<and> length ks' < length ks
                     \<and> unat (count copy') = length ks' \<and> unat (count copy) = length ks)"
    using r' lt reachable_count [OF r' n'] reachable_count [OF r n] by blast
qed

theorem C9_listAll_terminates_witness:
  "(\<exists>r. listAll_ibf Murmur3Finalizer example_three = Some r)
   \<and> (\<exists>r. listAll_ibd Murmur3Finalizer example_one_d = Some r)
   \<and> occupancy (example_three\<lparr>buckets := (buckets example_three)
                              [7 := \<lparr>cumulative_key = 0, bcount = 0\<rparr>,
                               6 := \<lparr>cumulative_key = 1336, bcount = 2\<rparr>,
                               5 := \<lparr>cumulative_key = 1336, bcount = 2\<rparr>],
                           count := 2\<rparr>) < occupancy example_three
   \<and> (\<exists>ks'. reachable Murmur3Finalizer
              (example_three\<lparr>buckets := (buckets example_three)
                              [7 := \<lparr>cumulative_key = 0, bcount = 0\<rparr>,
                               6 := \<lparr>cumulative_key = 1336, bcount = 2\<rparr>,
                               5 := \<lparr>cumulative_key = 1336, bcount = 2\<rparr>],
                           count := 2\<rparr>) ks'
         \<and> length ks' < length [1, 86, 1337 :: 64 word])"
proof -
  note a = C9_listAll_terminates [THEN conjunct1]
  note b = C9_listAll_terminates [THEN conjunct2, THEN conjunct1]
  note c = C9_listAll_terminates [THEN conjunct2, THEN conjunct2, THEN conjunct1, rule_format,
             OF example_three_scan]
  have "reachable Murmur3Finalizer example_three [1, 86, 1337]
          \<and> length [1, 86, 1337 :: 64 word] < 2 ^ 64
          \<and> scan Murmur3Finalizer [0..<length (buckets example_three)] (example_three, {}, True, False)
            = Inr (example_three\<lparr>buckets := (buckets example_three)
                              [7 := \<lparr>cumulative_key = 0, bcount = 0\<rparr>,
                               6 := \<lparr>cumulative_key = 1336, bcount = 2\<rparr>,
                               5 := \<lparr>cumulative_key = 1336, bcount = 2\<rparr>],
                           count := 2\<rparr>, {86}, False, True)"
    using example_three_reachable example_three_scan by simp
  note d = C9_listAll_terminates [THEN conjunct2, THEN conjunct2, THEN conjunct2, rule_format,
             OF this]
  from a [of Murmur3Finalizer example_three] b [of Murmur3Finalizer example_one_d] c d
  show ?thesis by blast
qed

section \<open>Claims about membership on reachable structures\<close>

text \<open>
  C2, as stated, fails.  Insert the 65536 pairwise distinct keys 1, ..., 65536 into a
  fresh structure with a directory of one bucket (default 16-bit counter, \<open>K = 3\<close>): the
  bucket's counter wraps around to 0, and \<^verbatim>\<open>contains(1)\<close> returns \<^verbatim>\<open>not_found\<close> although the
  key 1 was inserted and never removed.
\<close>

theorem C2_counterexample:
  "\<not> isl (insert_all Murmur3Finalizer example_single (map of_nat [1..<65537]))
   \<and> (1 :: 64 word) \<in> set (map of_nat [1..<65537])
   \<and> contains_ibf Murmur3Finalizer
        (projr (insert_all Murmur3Finalizer example_single (map of_nat [1..<65537]))) 1
      = Inr not_found"
proof -
  obtain s' where s': "insert_all Murmur3Finalizer example_single (map of_nat [1..<65537]) = Inr s'"
    using insert_all_example_single_total by blast
  note b = single_bucket_after_inserts [OF s']
  have "(of_nat (length (map (of_nat :: nat \<Rightarrow> 64 word) [1..<65537])) :: 16 word) = 0"
    by simp
  with b(1) have bs: "buckets s' = [\<lparr>cumulative_key = xor_list (rev (map of_nat [1..<65537])), bcount = 0\<rparr>]"
    by simp
  have "contains_ibf Murmur3Finalizer s' 1 = Inr not_found"
    by (simp add: contains_ibf_def hash_index_def Let_def bs b(2))
  moreover have "(1 :: 64 word) \<in> set (map of_nat [1..<65537])"
    by (auto intro!: image_eqI [of _ _ "1::nat"])
  ultimately show ?thesis using s' by simp
qed

text \<open>
  C2, amended.  No false negatives as long as no bucket counter has wrapped around: for
  every structure reachable from a fresh non-empty directory by insertions and successful
  removals none of which overflows a bucket counter (no insertion increments a counter
  that holds its largest value, \<open>2 ^ 16 - 1\<close> for the default counter; the total number of
  keys is not bounded), with at least one seed, and for every key inserted and not yet
  removed, \<^verbatim>\<open>contains\<close> returns \<^verbatim>\<open>exists\<close> or \<^verbatim>\<open>might_exist\<close>.  The second example is a
  reachable structure with 8-bit counters that holds 300 keys.
\<close>

theorem C2_no_false_negatives:
  fixes s :: "('k::len word, 'c::len word) InvertibleBloomFilter"
  assumes "reachable hasher s ks" and "seeds s \<noteq> []" and "key \<in> set ks"
  shows "contains_ibf hasher s key = Inr exists \<or> contains_ibf hasher s key = Inr might_exist"
proof -
  from reachable_consistent [OF assms(1)]
  have "consistent hasher s ks" and "within_capacity hasher s ks" by simp_all
  then show ?thesis using assms(2,3) by (rule consistent_contains_present)
qed

theorem C2_no_false_negatives_witness:
  "(contains_ibf Murmur3Finalizer example_one 1337 = Inr exists
      \<or> contains_ibf Murmur3Finalizer example_one 1337 = Inr might_exist)
   \<and> length (rev spread_keys) = 300
   \<and> (contains_ibf identity_hash (projr (insert_all identity_hash spread_fresh spread_keys)) 7
        = Inr exists
      \<or> contains_ibf identity_hash (projr (insert_all identity_hash spread_fresh spread_keys)) 7
        = Inr might_exist)"
proof -
  have a: "contains_ibf Murmur3Finalizer example_one 1337 = Inr exists
      \<or> contains_ibf Murmur3Finalizer example_one 1337 = Inr might_exist"
    by (rule C2_no_false_negatives [OF example_one_reachable]) (simp_all add: example_one_def)
  from spread_full obtain s where i: "insert_all identity_hash spread_fresh spread_keys = Inr s"
    and r: "reachable identity_hash s (rev spread_keys)" and sd: "seeds s = [0]" by blast
  have "contains_ibf identity_hash s 7 = Inr exists \<or> contains_ibf identity_hash s 7 = Inr might_exist"
    by (rule C2_no_false_negatives [OF r _ seven_in_spread_keys]) (simp add: sd)
  with a i length_spread_keys show ?thesis by simp
qed

text \<open>
  C6, as stated, fails.  After the 65537 pairwise distinct keys 0, ..., 65536 are inserted
  into the one-bucket structure, the counter of the bucket has wrapped around to 1.  The
  keys 1 and 2 are both inserted and the bucket is a probe of both, yet \<^verbatim>\<open>contains\<close> does
  not return \<^verbatim>\<open>exists\<close> for both: it compares each with the exclusive-or of all the keys.
\<close>

theorem C6_counterexample:
  "\<not> isl (insert_all Murmur3Finalizer example_single (map of_nat [0..<65537]))
   \<and> (1 :: 64 word) \<in> set (map of_nat [0..<65537])
   \<and> (2 :: 64 word) \<in> set (map of_nat [0..<65537])
   \<and> bcount (buckets (projr (insert_all Murmur3Finalizer example_single (map of_nat [0..<65537])))
              ! slot Murmur3Finalizer 1 1 0) = 1
   \<and> bcount (buckets (projr (insert_all Murmur3Finalizer example_single (map of_nat [0..<65537])))
              ! slot Murmur3Finalizer 1 2 0) = 1
   \<and> \<not> (contains_ibf Murmur3Finalizer
            (projr (insert_all Murmur3Finalizer example_single (map of_nat [0..<65537]))) 1
          = Inr exists
        \<and> contains_ibf Murmur3Finalizer
            (projr (insert_all Murmur3Finalizer example_single (map of_nat [0..<65537]))) 2
          = Inr exists)"
proof -
  obtain s' where s': "insert_all Murmur3Finalizer example_single (map of_nat [0..<65537]) = Inr s'"
    using insert_all_example_single_total by blast
  note b = single_bucket_after_inserts [OF s']
  have "(of_nat (length (map (of_nat :: nat \<Rightarrow> 64 word) [0..<65537])) :: 16 word) = 1"
    by simp
  with b(1) have bs: "buckets s' = [\<lparr>cumulative_key = xor_list (rev (map of_nat [0..<65537])), bcount = 1\<rparr>]"
    by simp
  have c: "contains_ibf Murmur3Finalizer s' k
             = Inr (if k = xor_list (rev (map of_nat [0..<65537])) then exists else not_found)" for k
    by (simp add: contains_ibf_def hash_index_def Let_def bs b(2))
  have "\<not> (contains_ibf Murmur3Finalizer s' 1 = Inr exists \<and> contains_ibf Murmur3Finalizer s' 2 = Inr exists)"
    unfolding c by (auto split: if_splits)
  moreover have "(1 :: 64 word) \<in> set (map of_nat [0..<65537])"
    by (auto intro!: image_eqI [of _ _ "1::nat"])
  moreover have "(2 :: 64 word) \<in> set (map of_nat [0..<65537])"
    by (auto intro!: image_eqI [of _ _ "2::nat"])
  ultimately show ?thesis using s' bs by (simp add: slot_def)
qed

text \<open>
  C6, amended.  Exactness on a singleton probe as long as no bucket counter has wrapped
  around: for every structure reachable as in C2 (no insertion overflows a bucket counter,
  the total number of keys is not bounded) and every key, if the bucket of one of the
  key's probes has the count 1, then \<^verbatim>\<open>contains\<close> returns \<^verbatim>\<open>exists\<close> when the key is
  currently inserted and \<^verbatim>\<open>not_found\<close> when it is not.
\<close>

theorem C6_exact_on_singleton:
  fixes s :: "('k::len word, 'c::len word) InvertibleBloomFilter"
  assumes "reachable hasher s ks" and "seed \<in> set (seeds s)"
    and "bcount (buckets s ! slot hasher (length (buckets s)) key seed) = 1"
  shows "contains_ibf hasher s key = Inr (if key \<in> set ks then exists else not_found)"
proof -
  from reachable_consistent [OF assms(1)]
  have "consistent hasher s ks" and "within_capacity hasher s ks" by simp_all
  then show ?thesis using assms(2,3) by (rule consistent_contains_singleton)
qed

theorem C6_exact_on_singleton_witness:
  "contains_ibf Murmur3Finalizer example_one 1337 = Inr exists
   \<and> contains_ibf Murmur3Finalizer example_one 1 = Inr not_found
   \<and> length (rev spread_keys) = 300
   \<and> contains_ibf identity_hash (projr (insert_all identity_hash spread_fresh spread_keys)) 7
       = Inr exists"
proof -
  have a: "(0 :: 64 word) \<in> set (seeds example_one)" by (simp add: example_one_def)
  have b: "bcount (buckets example_one ! slot Murmur3Finalizer (length (buckets example_one)) 1337 0) = 1"
    by (simp add: example_one_def slot_def m1337)
  have c: "bcount (buckets example_one ! slot Murmur3Finalizer (length (buckets example_one)) 1 0) = 1"
    by (simp add: example_one_def slot_def m1)
  from spread_full obtain s where i: "insert_all identity_hash spread_fresh spread_keys = Inr s"
    and r: "reachable identity_hash s (rev spread_keys)" and sd: "seeds s = [0]"
    and l: "length (buckets s) = 300" by blast
  have d: "(0 :: 64 word) \<in> set (seeds s)" by (simp add: sd)
  from C6_exact_on_singleton [OF example_one_reachable a b]
       C6_exact_on_singleton [OF example_one_reachable a c]
       C6_exact_on_singleton [OF r d spread_bucket_7 [OF r sd l]] seven_in_spread_keys
       i length_spread_keys
  show ?thesis by simp
qed

section \<open>Claim about decode correctness\<close>

lemma seedless_ctor: "InvertibleBloomFilter_ctor 0 10 dist = Some seedless"
  by (simp add: InvertibleBloomFilter_ctor_def seedless_def)

lemma length_every_key: "length every_key = 2 ^ 64"
  by (simp only: every_key_def length_map length_upt diff_zero)

lemma distinct_every_key: "distinct every_key"
proof -
  have "inj_on (of_nat :: nat \<Rightarrow> 64 word) {0..<2 ^ 64}"
    by (rule inj_onI) (rule of_nat_64_inj_small, simp_all only: atLeastLessThan_iff)
  then show ?thesis
    by (simp only: every_key_def distinct_map distinct_upt set_upt simp_thms)
qed

lemma zero_in_every_key: "(0 :: 64 word) \<in> set every_key"
proof -
  have "(0::nat) \<in> {0..<2 ^ 64}" by (simp only: atLeastLessThan_iff) simp
  then have "of_nat 0 \<in> (of_nat :: nat \<Rightarrow> 64 word) ` {0..<2 ^ 64}" by (rule imageI)
  then show ?thesis unfolding every_key_def set_map set_upt by simp
qed

lemma seedless_insert_all: "insert_all hasher seedless every_key = Inr seedless"
proof -
  have "consistent hasher seedless []"
    by (rule consistent_fresh [of 10]) (simp_all add: fresh_def seedless_def)
  from insert_all_consistent [OF this, of every_key]
  obtain s' where i: "insert_all hasher seedless every_key = Inr s'"
    and c: "consistent hasher s' (rev every_key)"
    and l: "length (buckets s') = 10" and sd: "seeds s' = []"
    by (auto simp: seedless_def)
  have "buckets s' ! i = \<lparr>cumulative_key = 0, bcount = 0\<rparr>" if "i < 10" for i
    using c that by (simp add: consistent_def l sd routed_def)
  then have b: "buckets s' = replicate 10 \<lparr>cumulative_key = 0, bcount = 0\<rparr>"
    using l by (simp add: list_eq_iff_nth_eq)
  have "count s' = of_nat (length (rev every_key))" using c by (simp only: consistent_def)
  also have "\<dots> = 0" by (simp only: length_rev length_every_key of_nat_power of_nat_numeral) simp
  finally have "s' = seedless" using b sd by (simp add: seedless_def)
  with i show ?thesis by simp
qed

lemma seedless_listAll: "listAll_ibf hasher seedless = Some (Inr (seedless, Some {}))"
proof -
  have "\<forall>i \<in> set [0..<length (buckets seedless)]. bcount (buckets seedless ! i) \<noteq> 1"
    by (simp add: seedless_def)
  from scan_no_singleton [OF this, of hasher "{}" True False]
  have "scan hasher [0..<length (buckets seedless)] (seedless, {}, True, False)
          = Inr (seedless, {}, True, False)"
    by (simp add: seedless_def)
  then have "peel hasher (seedless, {}, False, True) = Some (Inr (seedless, {}, True, False))"
    using peel_step [of False True hasher seedless "{}"] by (simp add: peel_stop)
  then show ?thesis
    by (simp add: listAll_ibf_def) (simp add: seedless_def)
qed


lemma chain_ctor:
  "InvertibleBloomFilter_ctor 3 1023 chain_dist = Some chain_fresh"
  by (simp add: InvertibleBloomFilter_ctor_def numeral_3_eq_3 redraw_False chain_dist_def
      chain_fresh_def chain_seeds_def)

lemma distinct_chain_keys: "distinct chain_keys"
proof -
  have "inj_on (of_nat :: nat \<Rightarrow> 64 word) {1..<257}"
    by (rule inj_onI) (rule of_nat_64_inj_small, simp_all)
  moreover have "(65536 :: 64 word) \<notin> of_nat ` {1..<257}"
  proof
    assume "(65536 :: 64 word) \<in> of_nat ` {1..<257}"
    then obtain x where "x \<in> {1..<257}" "(of_nat x :: 64 word) = of_nat 65536" by auto
    then show False using of_nat_64_inj_small [of x 65536] by simp
  qed
  ultimately show ?thesis
    by (simp only: chain_keys_def distinct_append distinct_map distinct_upt set_upt set_map) simp
qed

lemma one_not_listed: "(1 :: 64 word) \<notin> chain_listed"
proof -
  have "(1 :: 64 word) \<notin> of_nat ` {257..<512}"
  proof
    assume "(1 :: 64 word) \<in> of_nat ` {257..<512}"
    then obtain x where "x \<in> {257..<512}" "(of_nat x :: 64 word) = of_nat 1" by auto
    then show False using of_nat_64_inj_small [of x 1] by simp
  qed
  then show ?thesis by (simp add: chain_listed_def)
qed

text \<open>
  C3, as stated, fails, in two ways.

  A bucket counter wraps around.  Take the filter with 8-bit bucket counters, \<open>K = 3\<close>, the
  seeds \<open>chain_seeds\<close>, the hash function \<open>chain_hasher\<close> and a directory of 1023 buckets,
  and insert the 257 pairwise distinct keys 1, ..., 256 and 65536.  All of them are routed
  to the bucket 0, whose counter wraps around to 1 and whose key field holds the
  exclusive-or 65792 of all the keys; each bucket \<open>2m\<close>, \<open>m = 1, ..., 256\<close>, receives two
  keys.  \<^verbatim>\<open>listAll\<close> takes the bucket 0 for a singleton, records 65792 and removes it, which
  turns the bucket 2 into an apparent singleton holding 257, and so on along the even
  buckets: a single scan records 65792, 257, ..., 511 and 0, empties every bucket, and no
  assertion fires.  The scan ends with \<^verbatim>\<open>finished\<close> set and with 257 recorded keys, as many
  as \<^verbatim>\<open>size()\<close>, so \<^verbatim>\<open>listAll\<close> returns a result, and this result is not the set of the
  inserted keys: the inserted key 1 is missing from it.

  The logical count wraps around.  Take a filter without seeds (\<open>K = 0\<close>) and insert each of
  the \<open>2 ^ 64\<close> keys of 64 bits once.  No bucket is touched and the 64-bit \<^verbatim>\<open>count\<close> is back
  at 0, so \<^verbatim>\<open>listAll\<close> finds every bucket empty and \<^verbatim>\<open>res.size() == count\<close>, and returns the
  empty set.
\<close>

theorem C3_counterexample:
  "InvertibleBloomFilter_ctor 3 1023 chain_dist = Some chain_fresh
   \<and> distinct chain_keys
   \<and> insert_all chain_hasher chain_fresh chain_keys = Inr (chain_state 0)
   \<and> listAll_ibf chain_hasher (chain_state 0) = Some (Inr (chain_state 0, Some chain_listed))
   \<and> card chain_listed = unat (size_ibf (chain_state 0))
   \<and> (1 :: 64 word) \<in> set chain_keys
   \<and> (1 :: 64 word) \<notin> chain_listed
   \<and> chain_listed \<noteq> set chain_keys
   \<and> InvertibleBloomFilter_ctor 0 10 chain_dist = Some seedless
   \<and> distinct every_key
   \<and> insert_all Murmur3Finalizer seedless every_key = Inr seedless
   \<and> listAll_ibf Murmur3Finalizer seedless = Some (Inr (seedless, Some {}))
   \<and> (0 :: 64 word) \<in> set every_key"
proof -
  have a: "(1 :: 64 word) \<in> set chain_keys"
    by (auto simp add: chain_keys_def intro!: image_eqI [of _ _ "1::nat"])
  with one_not_listed have "chain_listed \<noteq> set chain_keys" by auto
  moreover have "card chain_listed = unat (size_ibf (chain_state 0))"
    by (simp add: card_chain_listed size_ibf_def)
  ultimately show ?thesis
    using chain_ctor distinct_chain_keys chain_insert_all chain_listAll a one_not_listed
      seedless_ctor [of chain_dist] distinct_every_key seedless_insert_all [of Murmur3Finalizer]
      seedless_listAll [of Murmur3Finalizer] zero_in_every_key
    by (simp only: simp_thms)
qed

text \<open>
  C3, amended.  Decode correctness when it succeeds, as long as nothing has wrapped around,
  for both classes: for every structure reachable from a fresh non-empty directory by
  insertions and successful removals none of which overflows a bucket counter (as in
  \<open>reachable\<close>: the number of keys in one bucket stays below \<open>2 ^ bits\<close>, the total number of
  keys is not bounded by the counter width), and holding fewer than \<open>2 ^ 64\<close> keys, if
  \<^verbatim>\<open>listAll\<close> returns a result, then the result is exactly the set of the keys currently
  inserted and has \<^verbatim>\<open>size()\<close> elements; for the dictionary the result is a permutation of
  the pairs currently inserted, each key with its value, and has \<^verbatim>\<open>size()\<close> entries.  The
  keys need not be assumed pairwise distinct: when a key is present twice \<^verbatim>\<open>listAll\<close>
  returns no result.
\<close>

theorem C3_decode_correct:
  fixes s :: "('k::len word, 'c::len word) InvertibleBloomFilter"
    and d :: "('k'::len word, 'v::len word, 'c'::len word) InvertibleBloomDictionary"
  shows "(reachable hasher s ks \<and> length ks < 2 ^ 64
            \<and> listAll_ibf hasher s = Some (Inr (s', Some res)) \<longrightarrow>
            res = set ks \<and> card res = unat (size_ibf s) \<and> distinct ks)
       \<and> (reachable_d hasher' d kvs \<and> length kvs < 2 ^ 64
            \<and> listAll_ibd hasher' d = Some (Inr (d', Some res')) \<longrightarrow>
            mset res' = mset kvs \<and> length res' = unat (size_ibd d))"
proof (intro conjI impI)
  assume a: "reachable hasher s ks \<and> length ks < 2 ^ 64
               \<and> listAll_ibf hasher s = Some (Inr (s', Some res))"
  from a reachable_consistent [of hasher s ks]
  have c: "consistent hasher s ks" and b: "within_capacity hasher s ks" by simp_all
  from a have n: "length ks < 2 ^ 64" by simp
  from a have l: "listAll_ibf hasher s = Some (Inr (s', Some res))" by simp
  note r = consistent_listAll [OF c b n l]
  show "res = set ks" by (rule r(1))
  show "card res = unat (size_ibf s)" using r(2,3) by simp
  show "distinct ks" using r(1,2) by (simp add: card_distinct)
next
  assume a: "reachable_d hasher' d kvs \<and> length kvs < 2 ^ 64
               \<and> listAll_ibd hasher' d = Some (Inr (d', Some res'))"
  from a reachable_d_consistent [of hasher' d kvs]
  have c: "consistent_d hasher' d kvs" and b: "within_capacity_d hasher' d kvs" by simp_all
  from a have n: "length kvs < 2 ^ 64" by simp
  from a have l: "listAll_ibd hasher' d = Some (Inr (d', Some res'))" by simp
  note r = consistent_d_listAll [OF c b n l]
  show "mset res' = mset kvs" by (rule r(1))
  show "length res' = unat (size_ibd d)" using r(2,3) by simp
qed

theorem C3_decode_correct_witness:
  "{1337, 86} = set [86, 1337 :: 64 word] \<and> card {1337, 86 :: 64 word} = unat (size_ibf example_two)
   \<and> distinct [86, 1337 :: 64 word]
   \<and> mset [(1337 :: 64 word, 42 :: 32 word), (86, 89)] = mset [(86, 89), (1337, 42)]
   \<and> length [(1337 :: 64 word, 42 :: 32 word), (86, 89)] = unat (size_ibd example_two_d)"
proof -
  have a: "reachable Murmur3Finalizer example_two [86, 1337] \<and> length [86, 1337 :: 64 word] < 2 ^ 64
           \<and> listAll_ibf Murmur3Finalizer example_two = Some (Inr (example_two, Some {1337, 86}))"
    using example_two_reachable example_two_listAll by simp
  have b: "reachable_d Murmur3Finalizer example_two_d [(86, 89), (1337, 42)]
           \<and> length [(86 :: 64 word, 89 :: 32 word), (1337, 42)] < 2 ^ 64
           \<and> listAll_ibd Murmur3Finalizer example_two_d
               = Some (Inr (example_two_d, Some [(1337, 42), (86, 89)]))"
    using example_two_d_reachable example_two_d_listAll by simp
  from C3_decode_correct [THEN conjunct1, rule_format, OF a]
       C3_decode_correct [THEN conjunct2, rule_format, OF b]
  show ?thesis by simp
qed

end
